theory Spec2Isabelle
  imports Complex_Main "HOL-Library.Char_ord" "HOL-Library.List_Lexorder"
    "HOL-Library.Product_Lexorder" "HOL-Library.Monad_Syntax" "HOL-Library.Log_Nat"
begin

section \<open>Characters and strings\<close>

text \<open>
  A Python \<open>str\<close> is a sequence of code points; here a character is a code point below
  256 (Latin-1), so \<open>length\<close> counts what Python's \<open>len\<close> counts on such text.

  \<open>is_space\<close> is the class \<open>\s\<close> of \<open>re\<close> on \<open>str\<close> patterns, which is also what
  \<open>str.strip()\<close> removes: the code points for which \<open>str.isspace()\<close> holds.
\<close>

definition is_space :: "char \<Rightarrow> bool" where
  "is_space c = (c \<in> set [CHR 0x09, CHR 0x0A, CHR 0x0B, CHR 0x0C, CHR 0x0D,
      CHR 0x1C, CHR 0x1D, CHR 0x1E, CHR 0x1F, CHR 0x20, CHR 0x85, CHR 0xA0])"

text \<open>\<open>str.strip()\<close>: leading and trailing whitespace removed.\<close>

definition strip :: "string \<Rightarrow> string" where
  "strip s = rev (dropWhile is_space (rev (dropWhile is_space s)))"

section \<open>Normalizer\<close>

text \<open>
  \<open>re.sub(r"/\*.*?\*/", '', code, flags=re.S)\<close>. Scanning from the left, a match starts
  at \<open>/*\<close> when a \<open>*/\<close> follows somewhere after these two characters (the dot matches
  newlines too), and, being non-greedy, it ends at the first such \<open>*/\<close>; scanning resumes
  behind the match. \<open>after_close r\<close> is the text behind the first \<open>*/\<close> of \<open>r\<close>.
\<close>

fun after_close :: "string \<Rightarrow> string option" where
  "after_close [] = None"
| "after_close [c] = None"
| "after_close (c # d # r) =
     (if c = CHR ''*'' \<and> d = CHR ''/'' then Some r else after_close (d # r))"

lemma after_close_length: "after_close r = Some r' \<Longrightarrow> length r' < length r"
  by (induction r rule: after_close.induct) (auto split: if_splits)

function strip_block :: "string \<Rightarrow> string" where
  "strip_block [] = []"
| "strip_block [c] = [c]"
| "strip_block (c # d # r) =
     (if c = CHR ''/'' \<and> d = CHR ''*'' then
        (case after_close r of
           Some r' \<Rightarrow> strip_block r'
         | None \<Rightarrow> c # strip_block (d # r))
      else c # strip_block (d # r))"
  by pat_completeness auto
termination
  by (relation "measure length") (auto dest: after_close_length)

text \<open>
  \<open>re.sub(r"//.*?$", '', code, flags=re.M)\<close>: a match starts at \<open>//\<close> and runs to the
  end of the line, that is up to the next \<open>\n\<close> (which stays) or to the end of the text.
\<close>

function strip_line :: "string \<Rightarrow> string" where
  "strip_line [] = []"
| "strip_line [c] = [c]"
| "strip_line (c # d # r) =
     (if c = CHR ''/'' \<and> d = CHR ''/'' then strip_line (dropWhile (\<lambda>x. x \<noteq> CHR 0x0A) r)
      else c # strip_line (d # r))"
  by pat_completeness auto
termination
  by (relation "measure length") (auto simp: less_Suc_eq_le le_SucI length_dropWhile_le)

definition strip_comments :: "string \<Rightarrow> string" where
  "strip_comments code = strip_line (strip_block code)"

text \<open>\<open>re.sub(r"\s+", ' ', s)\<close>: every maximal run of whitespace becomes one space.\<close>

function collapse_ws :: "string \<Rightarrow> string" where
  "collapse_ws [] = []"
| "collapse_ws (c # r) =
     (if is_space c then CHR '' '' # collapse_ws (dropWhile is_space r)
      else c # collapse_ws r)"
  by pat_completeness auto
termination
  by (relation "measure length") (auto simp: less_Suc_eq_le length_dropWhile_le)

definition normalize :: "string \<Rightarrow> string" where
  "normalize code = strip (collapse_ws (strip_comments code))"

section \<open>Function extractor\<close>

subsection \<open>Lines\<close>

text \<open>
  \<open>str.splitlines()\<close>: the text is cut at every line boundary; \<open>\r\n\<close> is one
  boundary; a boundary at the very end opens no further line; the empty text has no line.
  The boundaries below 256 are \<open>\n \v \f \r\<close>, \<open>\x1c \x1d \x1e\<close> and \<open>\x85\<close>.
\<close>

definition is_linebreak :: "char \<Rightarrow> bool" where
  "is_linebreak c = (c \<in> set [CHR 0x0A, CHR 0x0B, CHR 0x0C, CHR 0x0D,
      CHR 0x1C, CHR 0x1D, CHR 0x1E, CHR 0x85])"

text \<open>\<open>after_break r\<close>: \<open>r\<close> starts at a boundary; the text behind that boundary.\<close>

fun after_break :: "string \<Rightarrow> string" where
  "after_break [] = []"
| "after_break [c] = []"
| "after_break (c # d # r) = (if c = CHR 0x0D \<and> d = CHR 0x0A then r else d # r)"

lemma after_break_length: "r \<noteq> [] \<Longrightarrow> length (after_break r) < length r"
  by (cases r rule: after_break.cases) auto

function splitlines :: "string \<Rightarrow> string list" where
  "splitlines [] = []"
| "splitlines (c # s) =
     (let l = takeWhile (\<lambda>x. \<not> is_linebreak x) (c # s);
          r = dropWhile (\<lambda>x. \<not> is_linebreak x) (c # s)
      in if r = [] then [l] else l # splitlines (after_break r))"
  by pat_completeness auto
termination
proof (relation "measure length", goal_cases)
  case 1
  show ?case by simp
next
  case (2 c s l r)
  have "length (after_break r) < length r"
    using 2 by (intro after_break_length) simp
  also have "length r \<le> length (c # s)"
    unfolding 2 by (rule length_dropWhile_le)
  finally show ?case by simp
qed

text \<open>\<open>'\n'.join(ls)\<close>.\<close>

fun join_lines :: "string list \<Rightarrow> string" where
  "join_lines [] = []"
| "join_lines [l] = l"
| "join_lines (l # m # ls) = l @ CHR 0x0A # join_lines (m # ls)"

subsection \<open>Boundary-detection patterns\<close>

text \<open>
  Each pattern is applied with \<open>pat.match(line)\<close>, that is at the start of the line.
  The pieces below consume a prefix of the remaining line and return what is left, or
  \<open>None\<close> when the piece does not match. Every repetition of the four patterns is
  followed by a piece that cannot start with a character of the repeated class
  (or, for \<open>[^=\n]*=>\<close> and \<open>[^\)]*\)\<close>, by the one character the class excludes), so the
  greedy repetition takes the whole run and backtracking into it never finds another
  match.
\<close>

definition is_ident_char :: "char \<Rightarrow> bool" where
  \<comment> \<open>\<open>[A-Za-z0-9_$]\<close>\<close>
  "is_ident_char c = ((CHR ''A'' \<le> c \<and> c \<le> CHR ''Z'') \<or> (CHR ''a'' \<le> c \<and> c \<le> CHR ''z'')
     \<or> (CHR ''0'' \<le> c \<and> c \<le> CHR ''9'') \<or> c = CHR ''_'' \<or> c = CHR ''$'')"

definition is_word_char :: "char \<Rightarrow> bool" where
  \<comment> \<open>\<open>\w\<close> on \<open>str\<close>: \<open>_\<close> and the code points below 256 with \<open>str.isalnum()\<close>\<close>
  "is_word_char c = ((CHR ''A'' \<le> c \<and> c \<le> CHR ''Z'') \<or> (CHR ''a'' \<le> c \<and> c \<le> CHR ''z'')
     \<or> (CHR ''0'' \<le> c \<and> c \<le> CHR ''9'') \<or> c = CHR ''_''
     \<or> c \<in> set [CHR 0xAA, CHR 0xB2, CHR 0xB3, CHR 0xB5, CHR 0xB9, CHR 0xBA,
                  CHR 0xBC, CHR 0xBD, CHR 0xBE]
     \<or> (CHR 0xC0 \<le> c \<and> c \<le> CHR 0xD6) \<or> (CHR 0xD8 \<le> c \<and> c \<le> CHR 0xF6)
     \<or> CHR 0xF8 \<le> c)"

definition ws0 :: "string \<Rightarrow> string option" where
  \<comment> \<open>\<open>\s*\<close>\<close>
  "ws0 s = Some (dropWhile is_space s)"

definition ws1 :: "string \<Rightarrow> string option" where
  \<comment> \<open>\<open>\s+\<close>\<close>
  "ws1 s = (case s of [] \<Rightarrow> None
      | c # r \<Rightarrow> if is_space c then Some (dropWhile is_space r) else None)"

fun lit :: "string \<Rightarrow> string \<Rightarrow> string option" where
  \<comment> \<open>a literal\<close>
  "lit [] s = Some s"
| "lit (p # ps) [] = None"
| "lit (p # ps) (c # s) = (if p = c then lit ps s else None)"

definition ident :: "string \<Rightarrow> (string \<times> string) option" where
  \<comment> \<open>the group \<open>([A-Za-z0-9_$]+)\<close>: the captured name and the rest\<close>
  "ident s = (if takeWhile is_ident_char s = [] then None
      else Some (takeWhile is_ident_char s, dropWhile is_ident_char s))"

definition params :: "string \<Rightarrow> string option" where
  \<comment> \<open>\<open>\([^\)]*\)\<close>\<close>
  "params s = lit ''('' s \<bind> (\<lambda>r. lit '')'' (dropWhile (\<lambda>c. c \<noteq> CHR '')'') r))"

definition decl_kw :: "string \<Rightarrow> string option" where
  \<comment> \<open>\<open>(?:var|let|const)\<close>\<close>
  "decl_kw s = (case lit ''var'' s of Some r \<Rightarrow> Some r
      | None \<Rightarrow> (case lit ''let'' s of Some r \<Rightarrow> Some r | None \<Rightarrow> lit ''const'' s))"

definition word_end :: "string \<Rightarrow> string option" where
  \<comment> \<open>\<open>\b\<close> behind a word character: the end of the line or a non-word character\<close>
  "word_end s = (case s of [] \<Rightarrow> Some s | c # r \<Rightarrow> if is_word_char c then None else Some s)"

definition arrow :: "string \<Rightarrow> string option" where
  \<comment> \<open>\<open>[^=\n]*=>\<close>\<close>
  "arrow s = lit ''=>'' (dropWhile (\<lambda>c. c \<noteq> CHR ''='' \<and> c \<noteq> CHR 0x0A) s)"

definition pat_declaration :: "string \<Rightarrow> string option" where
  \<comment> \<open>\<open>^\s*function\s+([A-Za-z0-9_$]+)\s*\([^\)]*\)\s*\{\<close>\<close>
  "pat_declaration line =
     ws0 line \<bind> lit ''function'' \<bind> ws1 \<bind> ident \<bind>
       (\<lambda>(name, r). ws0 r \<bind> params \<bind> ws0 \<bind> lit ''{'' \<bind> (\<lambda>_. Some name))"

definition pat_function_expr :: "string \<Rightarrow> string option" where
  \<comment> \<open>\<open>^\s*(?:var|let|const)\s+([A-Za-z0-9_$]+)\s*=\s*function\b\<close>\<close>
  "pat_function_expr line =
     ws0 line \<bind> decl_kw \<bind> ws1 \<bind> ident \<bind>
       (\<lambda>(name, r). ws0 r \<bind> lit ''='' \<bind> ws0 \<bind> lit ''function'' \<bind> word_end
          \<bind> (\<lambda>_. Some name))"

definition pat_arrow :: "string \<Rightarrow> string option" where
  \<comment> \<open>\<open>^\s*(?:var|let|const)\s+([A-Za-z0-9_$]+)\s*=\s*[^=\n]*=>\s*\{\<close>\<close>
  "pat_arrow line =
     ws0 line \<bind> decl_kw \<bind> ws1 \<bind> ident \<bind>
       (\<lambda>(name, r). ws0 r \<bind> lit ''='' \<bind> ws0 \<bind> arrow \<bind> ws0 \<bind> lit ''{''
          \<bind> (\<lambda>_. Some name))"

definition pat_method :: "string \<Rightarrow> string option" where
  \<comment> \<open>\<open>^\s*([A-Za-z0-9_$]+)\s*\([^\)]*\)\s*\{\<close>\<close>
  "pat_method line =
     ws0 line \<bind> ident \<bind>
       (\<lambda>(name, r). ws0 r \<bind> params \<bind> ws0 \<bind> lit ''{'' \<bind> (\<lambda>_. Some name))"

definition FUNC_PATTERNS :: "(string \<Rightarrow> string option) list" where
  "FUNC_PATTERNS = [pat_declaration, pat_function_expr, pat_arrow, pat_method]"

definition KEYWORD_NAMES :: "string list" where
  "KEYWORD_NAMES = [''if'', ''for'', ''while'', ''switch'', ''catch'', ''else'',
     ''constructor'', ''settimeout'', ''setinterval'', ''timeout'']"

text \<open>
  \<open>str.lower()\<close> on code points below 256: \<open>A\<close>..\<open>Z\<close> and the Latin-1 capitals
  \<open>\xc0\<close>..\<open>\xde\<close> (without \<open>\xd7\<close>) are replaced by their small letters, 32 code points up.
\<close>

definition upper_chars :: string where
  "upper_chars = ''ABCDEFGHIJKLMNOPQRSTUVWXYZ'' @
     [CHR 0xC0, CHR 0xC1, CHR 0xC2, CHR 0xC3, CHR 0xC4, CHR 0xC5, CHR 0xC6, CHR 0xC7, CHR 0xC8, CHR 0xC9, CHR 0xCA, CHR 0xCB, CHR 0xCC, CHR 0xCD, CHR 0xCE, CHR 0xCF,
      CHR 0xD0, CHR 0xD1, CHR 0xD2, CHR 0xD3, CHR 0xD4, CHR 0xD5, CHR 0xD6, CHR 0xD8, CHR 0xD9, CHR 0xDA, CHR 0xDB, CHR 0xDC, CHR 0xDD, CHR 0xDE]"

definition lower_chars :: string where
  "lower_chars = ''abcdefghijklmnopqrstuvwxyz'' @
     [CHR 0xE0, CHR 0xE1, CHR 0xE2, CHR 0xE3, CHR 0xE4, CHR 0xE5, CHR 0xE6, CHR 0xE7, CHR 0xE8, CHR 0xE9, CHR 0xEA, CHR 0xEB, CHR 0xEC, CHR 0xED, CHR 0xEE, CHR 0xEF,
      CHR 0xF0, CHR 0xF1, CHR 0xF2, CHR 0xF3, CHR 0xF4, CHR 0xF5, CHR 0xF6, CHR 0xF8, CHR 0xF9, CHR 0xFA, CHR 0xFB, CHR 0xFC, CHR 0xFD, CHR 0xFE]"

definition lower_char :: "char \<Rightarrow> char" where
  "lower_char c = (case map_of (zip upper_chars lower_chars) c of Some l \<Rightarrow> l | None \<Rightarrow> c)"

definition lower :: "string \<Rightarrow> string" where
  "lower s = map lower_char s"

subsection \<open>Records and the scan\<close>

text \<open>
  The dictionaries of the source. An \<open>entry\<close> has the five keys that \<open>make_entry\<close>
  copies; a FunctionRecord (\<open>func\<close>) has these and \<open>code\<close> and \<open>norm\<close> (\<open>norm'\<close> here);
  an entry of \<open>matches\<close> has the five keys and \<open>similarity\<close>. \<open>name\<close> is optional in the
  source (\<open>None\<close> when a pattern has no group).
\<close>

record entry =
  path :: string
  start_line :: nat
  end_line :: nat
  name :: "string option"
  snippet :: string

record func = entry +
  code :: string
  norm' :: string


text \<open>
  The \<open>for pat in FUNC_PATTERNS\<close> loop at line index \<open>i\<close>: the first pattern that matches
  decides. It returns \<open>matched\<close> (with the captured name) and the value of \<open>i\<close> behind the
  loop: on a denylisted name the loop body runs \<open>i += 1\<close> and resets \<open>matched\<close>.
\<close>

fun try_patterns :: "(string \<Rightarrow> string option) list \<Rightarrow> string \<Rightarrow> nat \<Rightarrow> string option \<times> nat" where
  "try_patterns [] line i = (None, i)"
| "try_patterns (pat # pats) line i =
     (case pat line of
        None \<Rightarrow> try_patterns pats line i
      | Some nm \<Rightarrow>
          if nm \<noteq> [] \<and> lower (strip nm) \<in> set KEYWORD_NAMES then (None, i + 1)
          else (Some nm, i))"

text \<open>
  The inner \<open>while j < L\<close> loop: braces are counted line by line until an opening brace
  has been seen and the count is back at zero or below; the result is the final \<open>j\<close>.
\<close>

function scan_braces :: "string list \<Rightarrow> nat \<Rightarrow> int \<Rightarrow> bool \<Rightarrow> nat" where
  "scan_braces lines j brace_count found_brace =
     (if j < length lines then
        let l = lines ! j;
            brace_count' = brace_count + int (count_list l CHR ''{'') - int (count_list l CHR ''}'');
            found_brace' = (found_brace \<or> CHR ''{'' \<in> set l)
        in if found_brace' \<and> brace_count' \<le> 0 then j + 1
           else scan_braces lines (j + 1) brace_count' found_brace'
      else j)"
  by pat_completeness auto
termination
  by (relation "measure (\<lambda>(lines, j, _, _). length lines - j)") auto

declare scan_braces.simps [simp del]

lemma scan_braces_end: "\<not> j < length lines \<Longrightarrow> scan_braces lines j bc fb = j"
  by (simp add: scan_braces.simps)

lemma scan_braces_step:
  "j < length lines \<Longrightarrow>
     scan_braces lines j bc fb =
       (if (fb \<or> CHR ''{'' \<in> set (lines ! j)) \<and>
           bc + int (count_list (lines ! j) CHR ''{'') - int (count_list (lines ! j) CHR ''}'') \<le> 0
        then j + 1
        else scan_braces lines (j + 1)
               (bc + int (count_list (lines ! j) CHR ''{'') - int (count_list (lines ! j) CHR ''}''))
               (fb \<or> CHR ''{'' \<in> set (lines ! j)))"
  by (subst scan_braces.simps) (simp add: Let_def)

lemma scan_braces_bounds:
  "j < length lines \<Longrightarrow>
     j < scan_braces lines j bc fb \<and> scan_braces lines j bc fb \<le> length lines"
proof (induction "length lines - j" arbitrary: j bc fb)
  case 0
  then show ?case by simp
next
  case (Suc n)
  let ?bc = "bc + int (count_list (lines ! j) CHR ''{'') - int (count_list (lines ! j) CHR ''}'')"
  let ?fb = "fb \<or> CHR ''{'' \<in> set (lines ! j)"
  note step = scan_braces_step[OF Suc.prems, of bc fb]
  show ?case
  proof (cases "Suc j < length lines")
    case True
    have "n = length lines - Suc j"
      using Suc.hyps(2) by simp
    from Suc.hyps(1)[OF this True, of ?bc ?fb]
    show ?thesis
      using Suc.prems by (simp add: step)
  next
    case False
    then have "scan_braces lines (Suc j) ?bc ?fb = Suc j"
      by (rule scan_braces_end)
    then show ?thesis
      using Suc.prems by (simp add: step)
  qed
qed

lemma try_patterns_index:
  "try_patterns pats line i = (m, i') \<Longrightarrow> i \<le> i' \<and> (m \<noteq> None \<longrightarrow> i' = i)"
  by (induction pats) (auto split: option.splits if_splits)

definition escape_newlines :: "string \<Rightarrow> string" where
  \<comment> \<open>\<open>.replace('\n', '\\n')\<close>: a newline becomes a backslash and the letter n\<close>
  "escape_newlines s = concat (map (\<lambda>c. if c = CHR 0x0A then [CHR 0x5C, CHR ''n''] else [c]) s)"

text \<open>
  The outer \<open>while i < L\<close> loop. \<open>relpath\<close> stands for \<open>os.path.relpath(_, ROOT)\<close>.
  Without a match \<open>i\<close> is incremented once more behind the pattern loop.
\<close>

function extract_loop ::
    "(string \<Rightarrow> string) \<Rightarrow> string list \<Rightarrow> string \<Rightarrow> nat \<Rightarrow> func list \<Rightarrow> func list" where
  "extract_loop relpath lines p i results =
     (if i < length lines then
        (case try_patterns FUNC_PATTERNS (lines ! i) i of
           (None, i') \<Rightarrow> extract_loop relpath lines p (i' + 1) results
         | (Some nm, i') \<Rightarrow>
             let start = i';
                 stop = scan_braces lines i' 0 False;
                 func_code = join_lines (take (stop - start) (drop start lines))
             in extract_loop relpath lines p stop
                  (results @ [\<lparr>path = relpath p, start_line = start + 1, end_line = stop,
                     name = Some nm, snippet = escape_newlines (take 120 func_code),
                     code = func_code, norm' = normalize func_code\<rparr>]))
      else results)"
  by pat_completeness auto
termination
proof (relation "measure (\<lambda>(_, lines, _, i, _). length lines - i)", goal_cases)
  case 1
  show ?case by simp
next
  case (2 relpath lines p i results x1 i')
  then show ?case
    using try_patterns_index[of FUNC_PATTERNS "lines ! i" i None i'] by auto
next
  case (3 relpath lines p i results x1 i' nm start stop func_code)
  then have "i' = i"
    using try_patterns_index[of FUNC_PATTERNS "lines ! i" i "Some nm" i'] by auto
  with 3 show ?case
    using scan_braces_bounds[of i lines 0 False] by auto
qed

declare extract_loop.simps [simp del]

definition extract_functions :: "(string \<Rightarrow> string) \<Rightarrow> string \<Rightarrow> string \<Rightarrow> func list" where
  "extract_functions relpath code_text p = extract_loop relpath (splitlines code_text) p 0 []"

section \<open>Grouping engine\<close>

text \<open>
  A \<open>defaultdict(list)\<close> is an association list in insertion order of its keys:
  \<open>d[k].append(v)\<close> appends to the list of an existing key, or adds the key at the end.
\<close>

fun dict_append :: "'k \<Rightarrow> 'v \<Rightarrow> ('k \<times> 'v list) list \<Rightarrow> ('k \<times> 'v list) list" where
  "dict_append k v [] = [(k, [v])]"
| "dict_append k v ((k', vs) # d) =
     (if k = k' then (k', vs @ [v]) # d else (k', vs) # dict_append k v d)"

definition group_exact :: "func list \<Rightarrow> func list list" where
  "group_exact funcs =
     (let by_body = fold (\<lambda>f d. dict_append (norm' f) f d) funcs []
      in map snd (filter (\<lambda>(k, items). length items > 1 \<and> k \<noteq> []) by_body))"

definition named :: "'a entry_scheme \<Rightarrow> bool" where
  \<comment> \<open>the truth value of \<open>f['name']\<close>: neither \<open>None\<close> nor the empty string\<close>
  "named f = (case name f of None \<Rightarrow> False | Some n \<Rightarrow> n \<noteq> [])"


datatype py_error = IndexError | ValueError

text \<open>
  \<open>SequenceMatcher(None, a, b).ratio()\<close> of Python's \<open>difflib\<close> is
  \<open>2.0 * matches / length if length else 1.0\<close>, where \<open>length = len(a) + len(b)\<close> and
  \<open>matches\<close> is the total size of the matching blocks that the library finds. The
  block search is the library's; it is the parameter \<open>M\<close> of the model (\<open>M a b\<close> is the
  number of matched characters). The score is a float in the source and a rational here.
\<close>

definition ratio :: "(string \<Rightarrow> string \<Rightarrow> nat) \<Rightarrow> string \<Rightarrow> string \<Rightarrow> rat" where
  "ratio M a b =
     (if length a + length b \<noteq> 0 then 2 * of_nat (M a b) / of_nat (length a + length b) else 1)"

text \<open>
  A member of a fuzzy cluster: the record, and its \<open>similarity\<close> key when it has one
  (the representative has none).
\<close>

type_synonym member = "func \<times> rat option"

text \<open>
  The \<open>for other in unused\<close> loop of \<open>group_fuzzy\<close>, with the cluster and \<open>to_remove\<close>
  built so far.
\<close>

fun compare_pool ::
    "(string \<Rightarrow> string \<Rightarrow> nat) \<Rightarrow> rat \<Rightarrow> func \<Rightarrow> func list \<Rightarrow> member list \<Rightarrow> func list
       \<Rightarrow> member list \<times> func list" where
  "compare_pool M threshold rep [] cluster to_remove = (cluster, to_remove)"
| "compare_pool M threshold rep (other # rest) cluster to_remove =
     (if norm' rep = [] \<or> norm' other = [] then
        compare_pool M threshold rep rest cluster to_remove
      else
        let score = ratio M (norm' rep) (norm' other)
        in if score \<ge> threshold \<and> score < 1 then
             compare_pool M threshold rep rest (cluster @ [(other, Some score)])
               (to_remove @ [other])
           else compare_pool M threshold rep rest cluster to_remove)"

text \<open>\<open>list.remove(x)\<close> removes the first element equal to \<open>x\<close>, or raises.\<close>

definition list_remove :: "'a \<Rightarrow> 'a list \<Rightarrow> py_error + 'a list" where
  "list_remove x xs = (if x \<in> set xs then Inr (remove1 x xs) else Inl ValueError)"

text \<open>\<open>for r in to_remove: unused.remove(r)\<close>\<close>

fun remove_each :: "'a list \<Rightarrow> 'a list \<Rightarrow> py_error + 'a list" where
  "remove_each [] unused = Inr unused"
| "remove_each (r # rs) unused =
     (case list_remove r unused of Inl e \<Rightarrow> Inl e | Inr unused' \<Rightarrow> remove_each rs unused')"

lemma remove_each_length:
  "remove_each rs unused = Inr unused' \<Longrightarrow> length unused' \<le> length unused"
proof (induction rs arbitrary: unused)
  case Nil
  then show ?case by simp
next
  case (Cons r rs)
  from Cons.prems obtain u where u: "list_remove r unused = Inr u" "remove_each rs u = Inr unused'"
    by (auto split: sum.splits)
  from u(1) have "length u \<le> length unused"
    by (auto simp: list_remove_def length_remove1 split: if_splits)
  with Cons.IH[OF u(2)] show ?case by simp
qed

text \<open>The \<open>while unused\<close> loop of \<open>group_fuzzy\<close>; \<open>unused.pop(0)\<close> takes the head.\<close>

function fuzzy_loop ::
    "(string \<Rightarrow> string \<Rightarrow> nat) \<Rightarrow> rat \<Rightarrow> func list \<Rightarrow> member list list
       \<Rightarrow> py_error + member list list" where
  "fuzzy_loop M threshold [] groups = Inr groups"
| "fuzzy_loop M threshold (rep # unused) groups =
     (case compare_pool M threshold rep unused [(rep, None)] [] of
        (cluster, to_remove) \<Rightarrow>
          (case remove_each to_remove unused of
             Inl e \<Rightarrow> Inl e
           | Inr unused' \<Rightarrow>
               fuzzy_loop M threshold unused'
                 (if length cluster > 1 then groups @ [cluster] else groups)))"
  by pat_completeness auto
termination
  by (relation "measure (\<lambda>(_, _, unused, _). length unused)")
     (auto dest: remove_each_length simp: less_Suc_eq_le)

definition group_fuzzy ::
    "(string \<Rightarrow> string \<Rightarrow> nat) \<Rightarrow> func list \<Rightarrow> rat \<Rightarrow> py_error + member list list" where
  "group_fuzzy M funcs threshold = fuzzy_loop M threshold funcs []"

section \<open>Canonical selector and report\<close>

definition make_entry :: "'a entry_scheme \<Rightarrow> entry" where
  "make_entry f = \<lparr>path = path f, start_line = start_line f, end_line = end_line f,
     name = name f, snippet = (if snippet f \<noteq> [] then take 120 (snippet f) else [])\<rparr>"

text \<open>
  \<open>sorted\<close> is stable and compares the keys \<open>(len(path), path)\<close> as tuples, strings by
  code point. \<open>relroot\<close> stands for \<open>os.path.relpath(os.path.join(ROOT, _), ROOT)\<close>.
  \<open>sorted_items[0]\<close> raises on the empty group.
\<close>

definition choose_canonical ::
    "(string \<Rightarrow> string) \<Rightarrow> 'a entry_scheme list \<Rightarrow> py_error + string \<times> string" where
  "choose_canonical relroot grp =
     (let sorted_items = sort_key (\<lambda>x. (length (path x), path x)) grp
      in case sorted_items of
           [] \<Rightarrow> Inl IndexError
         | canon # _ \<Rightarrow>
             Inr (relroot (path canon),
                  ''first by path ('' @ path canon @ '') and shortest path heuristic''))"













text \<open>
  \<open>main\<close> behind the collection of \<open>funcs\<close>; \<open>exact_norms\<close> and \<open>remaining\<close> are its
  local variables of these names.
\<close>

definition exact_norms :: "func list list \<Rightarrow> string list" where
  "exact_norms exact_groups =
     concat (map (\<lambda>g. case g of [] \<Rightarrow> [] | f # _ \<Rightarrow> if norm' f \<noteq> [] then [norm' f] else [])
       exact_groups)"

definition remaining :: "func list \<Rightarrow> func list" where
  "remaining funcs = filter (\<lambda>f. norm' f \<notin> set (exact_norms (group_exact funcs))) funcs"


text \<open>
  The collection loop of \<open>main\<close> over the files, given as pairs of a path and the text
  that \<open>read_file\<close> returns for it; a file with empty text is skipped.
\<close>

definition collect_funcs :: "(string \<Rightarrow> string) \<Rightarrow> (string \<times> string) list \<Rightarrow> func list" where
  "collect_funcs relpath files =
     concat (map (\<lambda>(p, code_text). if code_text = [] then []
                     else extract_functions relpath code_text p) files)"

section \<open>Properties of the extractor\<close>

subsection \<open>Line ranges\<close>

text \<open>
  The invariant of the outer loop: every record so far has a range \<open>1 \<le> start \<le> end\<close>
  that ends at or before \<open>b\<close>, and each record starts behind the end of all earlier
  ones.
\<close>

definition well_ranged :: "nat \<Rightarrow> func list \<Rightarrow> bool" where
  "well_ranged b rs =
     ((\<forall>r\<in>set rs. 1 \<le> start_line r \<and> start_line r \<le> end_line r \<and> end_line r \<le> b)
      \<and> sorted_wrt (\<lambda>r r'. end_line r < start_line r') rs)"

lemma well_ranged_mono: "well_ranged b rs \<Longrightarrow> b \<le> b' \<Longrightarrow> well_ranged b' rs"
  by (auto simp: well_ranged_def)

lemma well_ranged_snoc:
  "well_ranged b rs \<Longrightarrow> b < start_line r \<Longrightarrow> start_line r \<le> end_line r
     \<Longrightarrow> well_ranged (end_line r) (rs @ [r])"
  by (fastforce simp: well_ranged_def sorted_wrt_append)

lemma extract_loop_ranges:
  "well_ranged b results \<Longrightarrow> b \<le> i \<Longrightarrow> b \<le> length lines \<Longrightarrow>
     well_ranged (length lines) (extract_loop relpath lines p i results)"
proof (induction relpath lines p i results arbitrary: b rule: extract_loop.induct)
  case (1 relpath lines p i results)
  show ?case
  proof (cases "i < length lines")
    case False
    with 1 show ?thesis
      by (subst extract_loop.simps) (auto intro: well_ranged_mono)
  next
    case True
    obtain m i' where tp: "try_patterns FUNC_PATTERNS (lines ! i) i = (m, i')"
      by (cases "try_patterns FUNC_PATTERNS (lines ! i) i")
    note idx = try_patterns_index[OF tp]
    show ?thesis
    proof (cases m)
      case None
      have "extract_loop relpath lines p i results = extract_loop relpath lines p (i' + 1) results"
        using True tp None by (subst extract_loop.simps) simp
      moreover have "well_ranged (length lines) (extract_loop relpath lines p (i' + 1) results)"
        using "1.IH"(1)[OF True tp[symmetric] None "1.prems"(1) _ "1.prems"(3)] idx "1.prems"(2)
        by simp
      ultimately show ?thesis by simp
    next
      case (Some nm)
      with idx have [simp]: "i' = i" by simp
      define stop where "stop = scan_braces lines i 0 False"
      define func_code where "func_code = join_lines (take (stop - i) (drop i lines))"
      define r :: func where "r = \<lparr>path = relpath p, start_line = i + 1, end_line = stop,
                     name = Some nm, snippet = escape_newlines (take 120 func_code),
                     code = func_code, norm' = normalize func_code\<rparr>"
      have stop: "i < stop" "stop \<le> length lines"
        using scan_braces_bounds[OF True, of 0 False] by (simp_all add: stop_def)
      have eq: "extract_loop relpath lines p i results =
                  extract_loop relpath lines p stop (results @ [r])"
        using True tp Some
        by (subst extract_loop.simps) (simp add: Let_def stop_def func_code_def r_def)
      have "well_ranged (end_line r) (results @ [r])"
        using "1.prems" stop by (intro well_ranged_snoc[of b]) (simp_all add: r_def)
      then have wr: "well_ranged stop (results @ [r])"
        by (simp add: r_def)
      have "well_ranged (length lines) (extract_loop relpath lines p stop (results @ [r]))"
        using "1.IH"(2)[OF True tp[symmetric] Some refl refl refl, of stop] wr stop
        by (simp add: stop_def func_code_def r_def)
      with eq show ?thesis by simp
    qed
  qed
qed

text \<open>
  Claim C3. For every input text the records come in source order with disjoint line
  ranges: every record has \<open>1 \<le> start_line \<le> end_line\<close>, no range reaches behind the last
  line of the text, and every record starts strictly behind the end of every record
  before it in the result (so in particular behind the end of the previous one).
\<close>

theorem extract_functions_ranges:
  "(\<forall>r\<in>set (extract_functions relpath t p).
      1 \<le> start_line r \<and> start_line r \<le> end_line r \<and> end_line r \<le> length (splitlines t))
   \<and> sorted_wrt (\<lambda>r r'. end_line r < start_line r') (extract_functions relpath t p)"
proof -
  have "well_ranged (length (splitlines t)) (extract_functions relpath t p)"
    unfolding extract_functions_def
    by (rule extract_loop_ranges[of 0]) (simp_all add: well_ranged_def)
  then show ?thesis
    by (simp add: well_ranged_def)
qed

theorem extract_functions_ranges_witness:
  "map (\<lambda>r. (start_line r, end_line r))
     (extract_functions id (''function f() {'' @ [CHR 0x0A] @ ''}'' @ [CHR 0x0A] @
        ''function g() {'' @ [CHR 0x0A] @ ''}'') ''a.js'') = [(1, 2), (3, 4)]
   \<and> list_all (\<lambda>r. 1 \<le> start_line r \<and> start_line r \<le> end_line r)
       (extract_functions id (''function f() {'' @ [CHR 0x0A] @ ''}'' @ [CHR 0x0A] @
        ''function g() {'' @ [CHR 0x0A] @ ''}'') ''a.js'')
   \<and> sorted_wrt (\<lambda>r r'. end_line r < start_line r')
       (extract_functions id (''function f() {'' @ [CHR 0x0A] @ ''}'' @ [CHR 0x0A] @
        ''function g() {'' @ [CHR 0x0A] @ ''}'') ''a.js'')"
proof -
  have "map (\<lambda>r. (start_line r, end_line r))
     (extract_functions id (''function f() {'' @ [CHR 0x0A] @ ''}'' @ [CHR 0x0A] @
        ''function g() {'' @ [CHR 0x0A] @ ''}'') ''a.js'') = [(1, 2), (3, 4)]"
    by code_simp
  then show ?thesis
    using extract_functions_ranges[of id "''function f() {'' @ [CHR 0x0A] @ ''}'' @ [CHR 0x0A] @
        ''function g() {'' @ [CHR 0x0A] @ ''}''" "''a.js''"]
    unfolding list_all_iff by blast
qed

subsection \<open>Denylisted names\<close>

text \<open>
  What the loop does at a line whose first matching pattern captures a denylisted name:
  \<open>i\<close> is incremented in the pattern loop and once more behind it, so the scan goes on
  two lines further.
\<close>

lemma extract_loop_denylisted:
  "i < length lines \<Longrightarrow> try_patterns FUNC_PATTERNS (lines ! i) i = (None, i + 1) \<Longrightarrow>
     extract_loop relpath lines p i results = extract_loop relpath lines p (i + 2) results"
  by (subst extract_loop.simps) simp

text \<open>
  Claim C4 says that behind a rejected (denylisted) line the very next line is examined
  as a potential function start. In the text below the first line \<open>if (x) {\<close> matches the
  method pattern with the denylisted name \<open>if\<close>; the next line \<open>function foo() {\<close> is a
  function declaration, and the extractor reports nothing, although alone (second
  statement) the declaration is found.
\<close>

theorem denylisted_line_hides_next_line:
  "extract_functions relpath
     (''if (x) {'' @ [CHR 0x0A] @ ''function foo() {'' @ [CHR 0x0A] @ ''}'') p = []
   \<and> map (\<lambda>r. (name r, start_line r, end_line r))
       (extract_functions relpath (''function foo() {'' @ [CHR 0x0A] @ ''}'') p)
     = [(Some ''foo'', 1, 2)]"
  by code_simp

subsection \<open>The records that the scan emits\<close>

text \<open>
  \<open>record_at relpath lines p i nm\<close> is the record that the loop appends when the line of
  index \<open>i\<close> matches with the name \<open>nm\<close>; every record of the result is of this form.
\<close>

definition record_at :: "(string \<Rightarrow> string) \<Rightarrow> string list \<Rightarrow> string \<Rightarrow> nat \<Rightarrow> string \<Rightarrow> func" where
  "record_at relpath lines p i nm =
     (let stop = scan_braces lines i 0 False;
          func_code = join_lines (take (stop - i) (drop i lines))
      in \<lparr>path = relpath p, start_line = i + 1, end_line = stop,
          name = Some nm, snippet = escape_newlines (take 120 func_code),
          code = func_code, norm' = normalize func_code\<rparr>)"

lemma extract_loop_records:
  "r \<in> set (extract_loop relpath lines p i results) \<Longrightarrow>
     r \<in> set results \<or>
     (\<exists>j nm. j < length lines \<and> try_patterns FUNC_PATTERNS (lines ! j) j = (Some nm, j)
        \<and> r = record_at relpath lines p j nm)"
proof (induction relpath lines p i results rule: extract_loop.induct)
  case (1 relpath lines p i results)
  show ?case
  proof (cases "i < length lines")
    case False
    with "1.prems" show ?thesis
      by (subst (asm) extract_loop.simps) simp
  next
    case True
    obtain m i' where tp: "try_patterns FUNC_PATTERNS (lines ! i) i = (m, i')"
      by (cases "try_patterns FUNC_PATTERNS (lines ! i) i")
    note idx = try_patterns_index[OF tp]
    show ?thesis
    proof (cases m)
      case None
      have "extract_loop relpath lines p i results = extract_loop relpath lines p (i' + 1) results"
        using True tp None by (subst extract_loop.simps) simp
      with "1.prems" "1.IH"(1)[OF True tp[symmetric] None] show ?thesis
        by simp
    next
      case (Some nm)
      with idx have [simp]: "i' = i" by simp
      have eq: "extract_loop relpath lines p i results =
                  extract_loop relpath lines p (scan_braces lines i 0 False)
                    (results @ [record_at relpath lines p i nm])"
        using True tp Some
        by (subst extract_loop.simps) (simp add: Let_def record_at_def)
      from "1.IH"(2)[OF True tp[symmetric] Some refl refl refl] "1.prems"
      have "r \<in> set (results @ [record_at relpath lines p i nm]) \<or>
            (\<exists>j nm. j < length lines \<and> try_patterns FUNC_PATTERNS (lines ! j) j = (Some nm, j)
               \<and> r = record_at relpath lines p j nm)"
        unfolding eq by (simp add: Let_def record_at_def)
      then show ?thesis
        using True tp Some by auto
    qed
  qed
qed

lemma ident_nonempty: "ident s = Some (n, r) \<Longrightarrow> n \<noteq> []"
  by (auto simp: ident_def split: if_splits)

lemma pat_declaration_name: "pat_declaration l = Some n \<Longrightarrow> n \<noteq> []"
  by (auto simp: pat_declaration_def bind_eq_Some_conv dest: ident_nonempty)

lemma pat_function_expr_name: "pat_function_expr l = Some n \<Longrightarrow> n \<noteq> []"
  by (auto simp: pat_function_expr_def bind_eq_Some_conv dest: ident_nonempty)

lemma pat_arrow_name: "pat_arrow l = Some n \<Longrightarrow> n \<noteq> []"
  by (auto simp: pat_arrow_def bind_eq_Some_conv dest: ident_nonempty)

lemma pat_method_name: "pat_method l = Some n \<Longrightarrow> n \<noteq> []"
  by (auto simp: pat_method_def bind_eq_Some_conv dest: ident_nonempty)

lemma try_patterns_name:
  "try_patterns pats l i = (Some n, i') \<Longrightarrow> \<forall>pat\<in>set pats. \<forall>l n. pat l = Some n \<longrightarrow> n \<noteq> [] \<Longrightarrow> n \<noteq> []"
  by (induction pats) (auto split: option.splits if_splits)

lemma FUNC_PATTERNS_name: "try_patterns FUNC_PATTERNS l i = (Some n, i') \<Longrightarrow> n \<noteq> []"
  by (erule try_patterns_name)
     (auto simp: FUNC_PATTERNS_def dest: pat_declaration_name pat_function_expr_name pat_arrow_name pat_method_name)

text \<open>
  Claim C10. Every record that the extractor emits has a name, and the name is not
  empty: each of the four patterns captures \<open>[A-Za-z0-9_$]+\<close>. So the test \<open>if f['name']\<close>
  of \<open>group_identical_named\<close> (\<open>named\<close>) holds for every extracted record and excludes
  none of them.
\<close>

theorem extracted_records_named:
  "(\<forall>r\<in>set (extract_functions relpath t p). \<exists>n. name r = Some n \<and> n \<noteq> [])
   \<and> filter named (extract_functions relpath t p) = extract_functions relpath t p"
proof -
  have *: "\<exists>n. name r = Some n \<and> n \<noteq> []" if "r \<in> set (extract_functions relpath t p)" for r
    using extract_loop_records[OF that[unfolded extract_functions_def]]
    by (auto simp: record_at_def Let_def dest: FUNC_PATTERNS_name)
  then have "\<forall>r\<in>set (extract_functions relpath t p). named r"
    by (fastforce simp: named_def)
  then show ?thesis
    using * by (simp add: filter_id_conv)
qed

theorem extracted_records_named_witness:
  "map name (extract_functions id (''const f = function(a) {'' @ [CHR 0x0A] @ ''}'' @ [CHR 0x0A] @
        ''  render() {'' @ [CHR 0x0A] @ ''}'') ''a.js'') = [Some ''f'', Some ''render'']
   \<and> list_all named (extract_functions id (''const f = function(a) {'' @ [CHR 0x0A] @ ''}'' @
        [CHR 0x0A] @ ''  render() {'' @ [CHR 0x0A] @ ''}'') ''a.js'')"
proof -
  have "map name (extract_functions id (''const f = function(a) {'' @ [CHR 0x0A] @ ''}'' @
          [CHR 0x0A] @ ''  render() {'' @ [CHR 0x0A] @ ''}'') ''a.js'') = [Some ''f'', Some ''render'']"
    by code_simp
  moreover have "list_all named (extract_functions id (''const f = function(a) {'' @ [CHR 0x0A] @
          ''}'' @ [CHR 0x0A] @ ''  render() {'' @ [CHR 0x0A] @ ''}'') ''a.js'')"
    using extracted_records_named[of id "''const f = function(a) {'' @ [CHR 0x0A] @ ''}'' @
          [CHR 0x0A] @ ''  render() {'' @ [CHR 0x0A] @ ''}''" "''a.js''"]
    by (auto simp: list_all_iff named_def)
  ultimately show ?thesis by simp
qed

subsection \<open>Comment-only files\<close>

text \<open>
  All four patterns want an identifier character behind the leading whitespace of the
  line (the \<open>f\<close> of \<open>function\<close>, the first letter of \<open>var\<close>, \<open>let\<close>, \<open>const\<close>, or the
  captured identifier itself). \<open>starts_ident l\<close>: the line \<open>l\<close> has one there.
\<close>

definition ident_head :: "string \<Rightarrow> bool" where
  "ident_head r = (case r of [] \<Rightarrow> False | c # _ \<Rightarrow> is_ident_char c)"

definition starts_ident :: "string \<Rightarrow> bool" where
  "starts_ident l = ident_head (dropWhile is_space l)"

lemma ident_None: "\<not> ident_head r \<Longrightarrow> ident r = None"
  by (cases r) (simp_all add: ident_head_def ident_def)

lemma lit_ident_None: "\<not> ident_head r \<Longrightarrow> is_ident_char c \<Longrightarrow> lit (c # cs) r = None"
  by (cases r) (auto simp: ident_head_def)

lemma decl_kw_None: "\<not> ident_head r \<Longrightarrow> decl_kw r = None"
  by (simp add: decl_kw_def lit_ident_None is_ident_char_def)

lemma no_pattern:
  assumes "\<not> starts_ident l"
  shows "pat_declaration l = None" "pat_function_expr l = None" "pat_arrow l = None" "pat_method l = None"
  using assms
  by (simp_all add: pat_declaration_def pat_function_expr_def pat_arrow_def pat_method_def
        starts_ident_def ws0_def ident_None decl_kw_None lit_ident_None is_ident_char_def)

lemma try_patterns_no_ident: "\<not> starts_ident l \<Longrightarrow> try_patterns FUNC_PATTERNS l i = (None, i)"
  by (simp add: FUNC_PATTERNS_def no_pattern)

text \<open>
  Claim C7 says that a file of comments and whitespace only yields no record. The
  extractor scans the raw lines, comments included: the text below is one block comment
  (\<open>strip_comments\<close> leaves nothing of it), and its second line is reported as the
  function \<open>foo\<close>.
\<close>

theorem comment_only_file_counterexample:
  "strip_comments (''/*'' @ [CHR 0x0A] @ ''function foo() {'' @ [CHR 0x0A] @ ''}'' @ [CHR 0x0A] @
      ''*/'') = []
   \<and> map (\<lambda>r. (name r, start_line r, end_line r))
       (extract_functions id (''/*'' @ [CHR 0x0A] @ ''function foo() {'' @ [CHR 0x0A] @ ''}'' @
          [CHR 0x0A] @ ''*/'') ''a.js'') = [(Some ''foo'', 2, 3)]"
  by code_simp

text \<open>
  A line is accepted as a function start when the pattern loop leaves \<open>matched\<close> set:
  some pattern matches it, and the name that the first matching pattern captures is not
  denylisted. (The line index only counts; it has no part in the decision.)
\<close>

definition accepted_start :: "string \<Rightarrow> bool" where
  "accepted_start l = (fst (try_patterns FUNC_PATTERNS l 0) \<noteq> None)"

lemma try_patterns_fst: "fst (try_patterns pats l i) = fst (try_patterns pats l j)"
  by (induction pats) (auto split: option.splits)

lemma extract_loop_no_accept:
  "\<forall>l\<in>set lines. \<not> accepted_start l \<Longrightarrow> extract_loop relpath lines p i results = results"
proof (induction relpath lines p i results rule: extract_loop.induct)
  case (1 relpath lines p i results)
  show ?case
  proof (cases "i < length lines")
    case False
    then show ?thesis by (subst extract_loop.simps) simp
  next
    case True
    obtain m i' where tp: "try_patterns FUNC_PATTERNS (lines ! i) i = (m, i')"
      by (cases "try_patterns FUNC_PATTERNS (lines ! i) i")
    from True "1.prems" have "\<not> accepted_start (lines ! i)" by simp
    then have "fst (try_patterns FUNC_PATTERNS (lines ! i) 0) = None"
      by (simp add: accepted_start_def)
    with try_patterns_fst[of FUNC_PATTERNS "lines ! i" i 0] tp have m: "m = None" by simp
    have "extract_loop relpath lines p i results = extract_loop relpath lines p (i' + 1) results"
      using True tp m by (subst extract_loop.simps) simp
    also have "\<dots> = results"
      using "1.IH"(1)[OF True tp[symmetric] m "1.prems"] .
    finally show ?thesis .
  qed
qed

lemma not_starts_ident_not_accepted: "\<not> starts_ident l \<Longrightarrow> \<not> accepted_start l"
  by (simp add: accepted_start_def try_patterns_no_ident)

text \<open>
  Claim C7, amended. A file in which no line is accepted as a function start yields no
  record. Such are the files of whitespace and comments only whose comment lines do not
  themselves read as a function start: blank lines, \<open>//\<close> lines, the lines of a block
  comment that begin with \<open>/*\<close>, \<open>*\<close> or \<open>*/\<close>, and lines of prose.
\<close>

theorem no_accepted_line_no_records:
  "\<forall>l\<in>set (splitlines t). \<not> accepted_start l \<Longrightarrow> extract_functions relpath t p = []"
  unfolding extract_functions_def by (rule extract_loop_no_accept)

theorem no_accepted_line_no_records_witness:
  "list_all (\<lambda>l. \<not> accepted_start l)
     (splitlines (''/*'' @ [CHR 0x0A] @ ''Copyright 2025 Foo'' @ [CHR 0x0A] @ ''*/'' @
        [CHR 0x0A, CHR 0x0A] @ ''  // add(a, b) {''))
   \<and> normalize (''/*'' @ [CHR 0x0A] @ ''Copyright 2025 Foo'' @ [CHR 0x0A] @ ''*/'' @
        [CHR 0x0A, CHR 0x0A] @ ''  // add(a, b) {'') = []
   \<and> extract_functions id (''/*'' @ [CHR 0x0A] @ ''Copyright 2025 Foo'' @ [CHR 0x0A] @ ''*/'' @
        [CHR 0x0A, CHR 0x0A] @ ''  // add(a, b) {'') ''a.js'' = []"
proof -
  have a: "list_all (\<lambda>l. \<not> accepted_start l)
     (splitlines (''/*'' @ [CHR 0x0A] @ ''Copyright 2025 Foo'' @ [CHR 0x0A] @ ''*/'' @
        [CHR 0x0A, CHR 0x0A] @ ''  // add(a, b) {''))"
    by code_simp
  have b: "normalize (''/*'' @ [CHR 0x0A] @ ''Copyright 2025 Foo'' @ [CHR 0x0A] @ ''*/'' @
        [CHR 0x0A, CHR 0x0A] @ ''  // add(a, b) {'') = []"
    by code_simp
  from a have "\<forall>l\<in>set (splitlines (''/*'' @ [CHR 0x0A] @ ''Copyright 2025 Foo'' @ [CHR 0x0A] @
        ''*/'' @ [CHR 0x0A, CHR 0x0A] @ ''  // add(a, b) {'')). \<not> accepted_start l"
    unfolding list_all_iff .
  then have c: "extract_functions id (''/*'' @ [CHR 0x0A] @ ''Copyright 2025 Foo'' @ [CHR 0x0A] @
        ''*/'' @ [CHR 0x0A, CHR 0x0A] @ ''  // add(a, b) {'') ''a.js'' = []"
    by (rule no_accepted_line_no_records)
  show ?thesis
    by (intro conjI a b c)
qed

subsection \<open>Snippets\<close>

lemma length_escape_newlines: "length (escape_newlines s) = length s + count_list s (CHR 0x0A)"
  by (induction s) (auto simp: escape_newlines_def)

lemma count_list_le_length: "count_list s c \<le> length s"
  by (induction s) auto

text \<open>
  Claim C8 says that the snippet of every extracted record has at most 120 characters.
  The code is cut to 120 characters first and its newlines are escaped afterwards, each
  becoming two characters: the three-line function below has a snippet of 121
  characters.
\<close>

theorem snippet_length_counterexample:
  "map (\<lambda>r. length (snippet r))
     (extract_functions id (''function f() {'' @ [CHR 0x0A] @ replicate 110 (CHR ''x'') @
        [CHR 0x0A] @ ''}'') ''a.js'') = [121]"
  by code_simp

text \<open>
  Claim C8, amended. The snippet of every extracted record is the newline-escaped form
  of the first 120 characters of its code; its length is the length of that prefix plus
  the number of newlines in it, so at most 240. The snippet of the entry that
  \<open>make_entry\<close> reports is the first 120 characters of the record's snippet, so at most
  120 characters long.
\<close>

theorem snippet_of_record:
  "\<forall>r\<in>set (extract_functions relpath t p).
     snippet r = escape_newlines (take 120 (code r))
     \<and> length (snippet r) = length (take 120 (code r)) + count_list (take 120 (code r)) (CHR 0x0A)
     \<and> length (snippet r) \<le> 240
     \<and> snippet (make_entry r) = take 120 (snippet r)
     \<and> length (snippet (make_entry r)) \<le> 120"
proof
  fix r assume "r \<in> set (extract_functions relpath t p)"
  then obtain j nm where r: "r = record_at relpath (splitlines t) p j nm"
    using extract_loop_records[of r relpath "splitlines t" p 0 "[]"]
    by (auto simp: extract_functions_def)
  have s: "snippet r = escape_newlines (take 120 (code r))"
    by (simp add: r record_at_def Let_def)
  have c: "count_list (take 120 (code r)) (CHR 0x0A) \<le> 120"
    using count_list_le_length[of "take 120 (code r)" "CHR 0x0A"] by simp
  have l: "length (snippet r) =
      length (take 120 (code r)) + count_list (take 120 (code r)) (CHR 0x0A)"
    by (simp only: s length_escape_newlines)
  have l240: "length (snippet r) \<le> 240"
    using c unfolding l by simp
  have m: "snippet (make_entry r) = take 120 (snippet r)"
    by (simp add: make_entry_def)
  have "length (snippet (make_entry r)) \<le> 120"
    unfolding m by simp
  with s l l240 m show "snippet r = escape_newlines (take 120 (code r))
     \<and> length (snippet r) = length (take 120 (code r)) + count_list (take 120 (code r)) (CHR 0x0A)
     \<and> length (snippet r) \<le> 240
     \<and> snippet (make_entry r) = take 120 (snippet r)
     \<and> length (snippet (make_entry r)) \<le> 120"
    by blast
qed

theorem snippet_of_record_witness:
  "map (\<lambda>r. (length (snippet r), length (snippet (make_entry r))))
     (extract_functions id (''function f() {'' @ [CHR 0x0A] @ replicate 110 (CHR ''x'') @
        [CHR 0x0A] @ ''}'') ''a.js'') = [(121, 120)]
   \<and> list_all (\<lambda>r. snippet r = escape_newlines (take 120 (code r)) \<and> length (snippet r) \<le> 240
         \<and> length (snippet (make_entry r)) \<le> 120)
       (extract_functions id (''function f() {'' @ [CHR 0x0A] @ replicate 110 (CHR ''x'') @
          [CHR 0x0A] @ ''}'') ''a.js'')"
proof -
  have a: "map (\<lambda>r. (length (snippet r), length (snippet (make_entry r))))
     (extract_functions id (''function f() {'' @ [CHR 0x0A] @ replicate 110 (CHR ''x'') @
        [CHR 0x0A] @ ''}'') ''a.js'') = [(121, 120)]"
    by code_simp
  have b: "list_all (\<lambda>r. snippet r = escape_newlines (take 120 (code r)) \<and> length (snippet r) \<le> 240
         \<and> length (snippet (make_entry r)) \<le> 120)
       (extract_functions id (''function f() {'' @ [CHR 0x0A] @ replicate 110 (CHR ''x'') @
          [CHR 0x0A] @ ''}'') ''a.js'')"
    unfolding list_all_iff
    using snippet_of_record[of id "''function f() {'' @ [CHR 0x0A] @ replicate 110 (CHR ''x'') @
          [CHR 0x0A] @ ''}''" "''a.js''"]
    by blast
  from a b show ?thesis by (rule conjI)
qed

section \<open>Properties of the canonical selector\<close>

lemma sort_key_head_min:
  fixes k :: "'a \<Rightarrow> 'b::linorder"
  assumes "sort_key k xs = c # rest"
  shows "c \<in> set xs \<and> (\<forall>x\<in>set xs. k c \<le> k x)"
proof -
  have "set (sort_key k xs) = set xs" by simp
  with assms have s: "set xs = insert c (set rest)" by simp
  have "sorted (map k (sort_key k xs))" by (rule sorted_sort_key)
  with assms have "\<forall>x\<in>set rest. k c \<le> k x" by simp
  with s show ?thesis by auto
qed

text \<open>
  Claim C6. For every non-empty group (so for every group of at least two records)
  whose paths are repository-relative, so that \<open>relroot\<close> returns them unchanged,
  \<open>choose_canonical\<close> returns the path of a member that is minimal for the key \<open>(length
  of the path, path)\<close>: no member has a shorter path, and among the members with a path of
  the same length none has a lexicographically smaller one. The choice is a function of
  the group, hence the same for the same group.
\<close>

theorem choose_canonical_minimal:
  assumes "grp \<noteq> []" and "\<forall>f\<in>set grp. relroot (path f) = path f"
  shows "\<exists>c\<in>set grp.
           choose_canonical relroot grp =
             Inr (path c, ''first by path ('' @ path c @ '') and shortest path heuristic'')
           \<and> (\<forall>f\<in>set grp. length (path c) < length (path f)
                 \<or> (length (path c) = length (path f) \<and> path c \<le> path f))"
proof -
  let ?k = "\<lambda>x. (length (path x), path x)"
  from assms(1) have "sort_key ?k grp \<noteq> []"
    by (metis length_sort length_0_conv)
  then obtain c rest where cr: "sort_key ?k grp = c # rest"
    by (cases "sort_key ?k grp") auto
  from sort_key_head_min[OF cr] have c: "c \<in> set grp" and m: "\<forall>x\<in>set grp. ?k c \<le> ?k x"
    by auto
  have "choose_canonical relroot grp =
          Inr (path c, ''first by path ('' @ path c @ '') and shortest path heuristic'')"
    using cr c assms(2) by (simp add: choose_canonical_def)
  moreover have "\<forall>f\<in>set grp. length (path c) < length (path f)
                 \<or> (length (path c) = length (path f) \<and> path c \<le> path f)"
    using m by (auto simp: less_eq_prod_def)
  ultimately show ?thesis using c by blast
qed


definition example_group :: "entry list" where
  "example_group =
     [\<lparr>path = ''libs/c.js'', start_line = 1, end_line = 3, name = Some ''add'', snippet = ''x''\<rparr>,
      \<lparr>path = ''src/a.js'', start_line = 4, end_line = 6, name = Some ''add'', snippet = ''x''\<rparr>,
      \<lparr>path = ''lib/b.js'', start_line = 7, end_line = 9, name = Some ''add'', snippet = ''x''\<rparr>]"

theorem choose_canonical_minimal_witness:
  "example_group \<noteq> []
   \<and> list_all (\<lambda>f. id (path f) = path f) example_group
   \<and> choose_canonical id example_group =
       Inr (''lib/b.js'', ''first by path (lib/b.js) and shortest path heuristic'')
   \<and> (\<exists>c\<in>set example_group.
         choose_canonical id example_group =
           Inr (path c, ''first by path ('' @ path c @ '') and shortest path heuristic'')
         \<and> list_all (\<lambda>f. length (path c) < length (path f)
                 \<or> (length (path c) = length (path f) \<and> path c \<le> path f)) example_group)"
proof -
  have a: "example_group \<noteq> []"
    by (simp add: example_group_def)
  have b: "\<forall>f\<in>set example_group. id (path f) = path f"
    by simp
  have c: "choose_canonical id example_group =
       Inr (''lib/b.js'', ''first by path (lib/b.js) and shortest path heuristic'')"
    by code_simp
  from choose_canonical_minimal[OF a b] a b c show ?thesis
    unfolding list_all_iff by blast
qed

section \<open>Properties of the grouping engine\<close>

subsection \<open>The fuzzy loop\<close>

text \<open>
  \<open>absorbed M threshold rep other\<close> is the condition under which the comparison loop
  appends \<open>other\<close> to the cluster of \<open>rep\<close>, and \<open>cluster_of\<close> is the cluster that the
  loop builds for \<open>rep\<close> from the pool. One turn of the \<open>while\<close> loop filters the pool.
\<close>

definition absorbed :: "(string \<Rightarrow> string \<Rightarrow> nat) \<Rightarrow> rat \<Rightarrow> func \<Rightarrow> func \<Rightarrow> bool" where
  "absorbed M threshold rep other =
     (norm' rep \<noteq> [] \<and> norm' other \<noteq> [] \<and> threshold \<le> ratio M (norm' rep) (norm' other)
        \<and> ratio M (norm' rep) (norm' other) < 1)"

definition cluster_of :: "(string \<Rightarrow> string \<Rightarrow> nat) \<Rightarrow> rat \<Rightarrow> func \<Rightarrow> func list \<Rightarrow> member list" where
  "cluster_of M threshold rep pool =
     (rep, None) # map (\<lambda>other. (other, Some (ratio M (norm' rep) (norm' other))))
                     (filter (absorbed M threshold rep) pool)"

lemma compare_pool_eq:
  "compare_pool M threshold rep pool cluster to_remove =
     (cluster @ map (\<lambda>other. (other, Some (ratio M (norm' rep) (norm' other))))
                  (filter (absorbed M threshold rep) pool),
      to_remove @ filter (absorbed M threshold rep) pool)"
  by (induction pool arbitrary: cluster to_remove) (auto simp: absorbed_def Let_def)

lemma remove_each_filter:
  "\<forall>y\<in>set ys. \<not> P y \<Longrightarrow>
     remove_each (filter P xs) (ys @ xs) = Inr (ys @ filter (\<lambda>x. \<not> P x) xs)"
proof (induction xs arbitrary: ys)
  case Nil
  then show ?case by simp
next
  case (Cons x xs)
  show ?case
  proof (cases "P x")
    case True
    with Cons.prems have "x \<notin> set ys" by auto
    then have "remove1 x (ys @ x # xs) = ys @ xs"
      by (simp add: remove1_append)
    with True Cons.IH[OF Cons.prems] show ?thesis
      by (simp add: list_remove_def)
  next
    case False
    with Cons.prems have "\<forall>y\<in>set (ys @ [x]). \<not> P y" by simp
    from Cons.IH[OF this] False show ?thesis by simp
  qed
qed

lemma fuzzy_loop_step:
  "fuzzy_loop M threshold (rep # pool) groups =
     fuzzy_loop M threshold (filter (\<lambda>other. \<not> absorbed M threshold rep other) pool)
       (if filter (absorbed M threshold rep) pool \<noteq> []
        then groups @ [cluster_of M threshold rep pool] else groups)"
  using remove_each_filter[of "[]" "absorbed M threshold rep" pool]
  by (simp add: compare_pool_eq cluster_of_def)

lemma fuzzy_loop_result:
  "\<exists>gs. fuzzy_loop M threshold unused groups = Inr (groups @ gs)
     \<and> (\<forall>c\<in>set gs. \<exists>rep pool. rep \<in> set unused \<and> set pool \<subseteq> set unused
            \<and> filter (absorbed M threshold rep) pool \<noteq> []
            \<and> c = cluster_of M threshold rep pool)"
proof (induction unused arbitrary: groups rule: length_induct)
  case (1 unused)
  show ?case
  proof (cases unused)
    case Nil
    then show ?thesis by simp
  next
    case (Cons rep pool)
    let ?rest = "filter (\<lambda>other. \<not> absorbed M threshold rep other) pool"
    let ?groups = "if filter (absorbed M threshold rep) pool \<noteq> []
        then groups @ [cluster_of M threshold rep pool] else groups"
    have "length ?rest < length unused"
      using Cons by (simp add: less_Suc_eq_le)
    with 1 obtain gs where gs: "fuzzy_loop M threshold ?rest ?groups = Inr (?groups @ gs)"
      "\<forall>c\<in>set gs. \<exists>rep' pool'. rep' \<in> set ?rest \<and> set pool' \<subseteq> set ?rest
            \<and> filter (absorbed M threshold rep') pool' \<noteq> []
            \<and> c = cluster_of M threshold rep' pool'"
      by blast
    have sub: "set ?rest \<subseteq> set unused"
      using Cons by auto
    have tail: "\<forall>c\<in>set gs. \<exists>rep' pool'. rep' \<in> set unused \<and> set pool' \<subseteq> set unused
            \<and> filter (absorbed M threshold rep') pool' \<noteq> []
            \<and> c = cluster_of M threshold rep' pool'"
      using gs(2) sub by (meson subset_iff subset_trans)
    show ?thesis
    proof (cases "filter (absorbed M threshold rep) pool \<noteq> []")
      case True
      then have "fuzzy_loop M threshold unused groups =
          Inr (groups @ (cluster_of M threshold rep pool # gs))"
        using gs(1) unfolding Cons by (subst fuzzy_loop_step) simp
      moreover have "\<exists>rep' pool'. rep' \<in> set unused \<and> set pool' \<subseteq> set unused
            \<and> filter (absorbed M threshold rep') pool' \<noteq> []
            \<and> cluster_of M threshold rep pool = cluster_of M threshold rep' pool'"
        using True Cons by (intro exI[of _ rep] exI[of _ pool]) auto
      ultimately show ?thesis using tail by auto
    next
      case False
      then have "fuzzy_loop M threshold unused groups = Inr (groups @ gs)"
        using gs(1) unfolding Cons by (subst fuzzy_loop_step) simp
      then show ?thesis using tail by blast
    qed
  qed
qed

lemma cluster_of_members: "fst ` set (cluster_of M threshold rep pool) \<subseteq> insert rep (set pool)"
  by (auto simp: cluster_of_def)

text \<open>
  The whole loop from a representative on: its result is the groups so far, then the
  cluster of the representative if it absorbed a record, then the clusters of later
  turns, which are made of records that the representative left in the pool.
\<close>

lemma fuzzy_loop_continues:
  "\<exists>gs. fuzzy_loop M threshold (rep # pool) groups =
           Inr (groups @ (if filter (absorbed M threshold rep) pool \<noteq> []
                          then [cluster_of M threshold rep pool] else []) @ gs)
        \<and> (\<forall>c\<in>set gs. fst ` set c \<subseteq> set (filter (\<lambda>other. \<not> absorbed M threshold rep other) pool))"
proof -
  let ?rest = "filter (\<lambda>other. \<not> absorbed M threshold rep other) pool"
  let ?groups = "if filter (absorbed M threshold rep) pool \<noteq> []
        then groups @ [cluster_of M threshold rep pool] else groups"
  from fuzzy_loop_result[of M threshold ?rest ?groups] obtain gs where
    gs: "fuzzy_loop M threshold ?rest ?groups = Inr (?groups @ gs)" and
    cl: "\<forall>c\<in>set gs. \<exists>rep' pool'. rep' \<in> set ?rest \<and> set pool' \<subseteq> set ?rest
            \<and> filter (absorbed M threshold rep') pool' \<noteq> []
            \<and> c = cluster_of M threshold rep' pool'"
    by blast
  have "fuzzy_loop M threshold (rep # pool) groups =
           Inr (groups @ (if filter (absorbed M threshold rep) pool \<noteq> []
                          then [cluster_of M threshold rep pool] else []) @ gs)"
    using gs by (subst fuzzy_loop_step) (simp split: if_splits)
  moreover have "\<forall>c\<in>set gs. fst ` set c \<subseteq> set ?rest"
  proof
    fix c assume "c \<in> set gs"
    with cl obtain rep' pool' where "rep' \<in> set ?rest" "set pool' \<subseteq> set ?rest"
      "c = cluster_of M threshold rep' pool'" by blast
    with cluster_of_members[of M threshold rep' pool'] show "fst ` set c \<subseteq> set ?rest"
      by (simp add: subset_iff) blast
  qed
  ultimately show ?thesis by blast
qed

text \<open>
  The matching blocks that \<open>difflib\<close> finds are disjoint pieces of both strings, so
  their total size \<open>M a b\<close> is at most the length of either string. Under this bound a
  comparison with an empty \<open>norm\<close> scores 0 or 1.
\<close>

lemma ratio_empty:
  assumes "\<And>a b. M a b \<le> min (length a) (length b)"
  shows "a = [] \<or> b = [] \<Longrightarrow> ratio M a b = 0 \<or> ratio M a b = 1"
proof -
  assume e: "a = [] \<or> b = []"
  have "M a b \<le> min (length a) (length b)" by (rule assms)
  with e have "M a b = 0" by auto
  then show ?thesis by (simp add: ratio_def)
qed

text \<open>
  Claim C1. Let \<open>rep\<close> be taken as the representative while \<open>pool\<close> is the rest of the
  unclustered records, and let \<open>cluster\<close>, \<open>to_remove\<close> and the new pool \<open>unused'\<close> be what
  this turn of the loop computes (with the threshold 0.82 that \<open>main\<close> passes). Then
  every record of the pool whose ratio to \<open>rep\<close> is at least 0.82 and below 1 is in the
  cluster, with that ratio as its similarity, and has left the pool; and no record of
  the pool whose ratio is below 0.82 is in the cluster: it stays in the pool. The loop
  goes on with \<open>unused'\<close>, and keeps the cluster when it has more than one member: the
  loop returns the groups so far, then this cluster (if it has more than one member),
  then the clusters of later representatives, whose members are all records of
  \<open>unused'\<close>; and so does \<open>group_fuzzy\<close> on the list \<open>rep # pool\<close>.
\<close>

theorem fuzzy_cluster_of_representative:
  assumes "\<And>a b. M a b \<le> min (length a) (length b)"
  shows "\<exists>cluster to_remove unused'.
      compare_pool M (82 / 100) rep pool [(rep, None)] [] = (cluster, to_remove)
    \<and> remove_each to_remove pool = Inr unused'
    \<and> fuzzy_loop M (82 / 100) (rep # pool) groups =
        fuzzy_loop M (82 / 100) unused' (if length cluster > 1 then groups @ [cluster] else groups)
    \<and> (\<forall>other\<in>set pool.
          82 / 100 \<le> ratio M (norm' rep) (norm' other) \<and> ratio M (norm' rep) (norm' other) < 1 \<longrightarrow>
            (other, Some (ratio M (norm' rep) (norm' other))) \<in> set cluster \<and> other \<notin> set unused')
    \<and> (\<forall>other\<in>set pool.
          ratio M (norm' rep) (norm' other) < 82 / 100 \<longrightarrow>
            (\<forall>sc. (other, sc) \<notin> set (tl cluster)) \<and> other \<in> set unused')
    \<and> (\<exists>gs. fuzzy_loop M (82 / 100) (rep # pool) groups =
                Inr (groups @ (if length cluster > 1 then [cluster] else []) @ gs)
           \<and> (\<forall>c\<in>set gs. fst ` set c \<subseteq> set unused'))
    \<and> (\<exists>gs. group_fuzzy M (rep # pool) (82 / 100) =
                Inr ((if length cluster > 1 then [cluster] else []) @ gs)
           \<and> (\<forall>c\<in>set gs. fst ` set c \<subseteq> set unused'))"
proof -
  let ?A = "absorbed M (82 / 100) rep"
  let ?cluster = "cluster_of M (82 / 100) rep pool"
  let ?rest = "filter (\<lambda>other. \<not> ?A other) pool"
  have band: "?A other \<longleftrightarrow>
      82 / 100 \<le> ratio M (norm' rep) (norm' other) \<and> ratio M (norm' rep) (norm' other) < 1" for other
    using ratio_empty[OF assms, of "norm' rep" "norm' other"]
    by (auto simp: absorbed_def)
  have len: "length ?cluster > 1 \<longleftrightarrow> filter ?A pool \<noteq> []"
    by (simp add: cluster_of_def)
  have 1: "compare_pool M (82 / 100) rep pool [(rep, None)] [] = (?cluster, filter ?A pool)"
    by (simp add: compare_pool_eq cluster_of_def)
  have 2: "remove_each (filter ?A pool) pool = Inr ?rest"
    using remove_each_filter[of "[]" ?A pool] by simp
  have 3: "fuzzy_loop M (82 / 100) (rep # pool) groups =
        fuzzy_loop M (82 / 100) ?rest (if length ?cluster > 1 then groups @ [?cluster] else groups)"
    by (subst fuzzy_loop_step) (simp add: cluster_of_def)
  have 4: "\<forall>other\<in>set pool.
          82 / 100 \<le> ratio M (norm' rep) (norm' other) \<and> ratio M (norm' rep) (norm' other) < 1 \<longrightarrow>
            (other, Some (ratio M (norm' rep) (norm' other))) \<in> set ?cluster \<and> other \<notin> set ?rest"
    using band by (auto simp: cluster_of_def)
  have 5: "\<forall>other\<in>set pool.
          ratio M (norm' rep) (norm' other) < 82 / 100 \<longrightarrow>
            (\<forall>sc. (other, sc) \<notin> set (tl ?cluster)) \<and> other \<in> set ?rest"
    using band by (auto simp: cluster_of_def)
  have 6: "\<exists>gs. fuzzy_loop M (82 / 100) (rep # pool) groups =
                Inr (groups @ (if length ?cluster > 1 then [?cluster] else []) @ gs)
           \<and> (\<forall>c\<in>set gs. fst ` set c \<subseteq> set ?rest)" for groups
    using fuzzy_loop_continues[of M "82 / 100" rep pool groups] unfolding len .
  have 7: "\<exists>gs. group_fuzzy M (rep # pool) (82 / 100) =
                Inr ((if length ?cluster > 1 then [?cluster] else []) @ gs)
           \<and> (\<forall>c\<in>set gs. fst ` set c \<subseteq> set ?rest)"
    using 6[of "[]"] unfolding group_fuzzy_def append_Nil .
  show ?thesis
    by (intro exI[of _ ?cluster] exI[of _ "filter ?A pool"] exI[of _ ?rest] conjI 1 2 3 4 5 6 7)
qed

text \<open>
  An instance of \<open>M\<close> within the bound: the length of the common prefix (the one
  matching block of two strings of which one is a prefix of the other).
\<close>

fun common_prefix :: "string \<Rightarrow> string \<Rightarrow> nat" where
  "common_prefix (x # xs) (y # ys) = (if x = y then Suc (common_prefix xs ys) else 0)"
| "common_prefix xs ys = 0"

lemma common_prefix_le: "common_prefix a b \<le> min (length a) (length b)"
  by (induction a b rule: common_prefix.induct) auto

definition example_rep :: func where
  "example_rep = \<lparr>path = ''a.js'', start_line = 1, end_line = 1, name = Some ''f'',
     snippet = ''f(a) { g(a) }'', code = ''f(a) { g(a) }'', norm' = ''f(a) { g(a) }''\<rparr>"

definition example_near :: func where
  "example_near = \<lparr>path = ''b.js'', start_line = 1, end_line = 1, name = Some ''f'',
     snippet = ''f(a) { g(a) };'', code = ''f(a) { g(a) };'', norm' = ''f(a) { g(a) };''\<rparr>"

definition example_far :: func where
  "example_far = \<lparr>path = ''c.js'', start_line = 1, end_line = 1, name = Some ''f'',
     snippet = ''f(b) { h(b) }'', code = ''f(b) { h(b) }'', norm' = ''f(b) { h(b) }''\<rparr>"

theorem fuzzy_cluster_of_representative_witness:
  "(\<forall>a b. common_prefix a b \<le> min (length a) (length b))
   \<and> ratio common_prefix (norm' example_rep) (norm' example_near) = 26 / 27
   \<and> ratio common_prefix (norm' example_rep) (norm' example_far) = 4 / 26
   \<and> group_fuzzy common_prefix [example_rep, example_near, example_far] (82 / 100) =
       Inr [[(example_rep, None), (example_near, Some (26 / 27))]]
   \<and> (\<exists>cluster to_remove unused'.
         compare_pool common_prefix (82 / 100) example_rep [example_near, example_far]
           [(example_rep, None)] [] = (cluster, to_remove)
       \<and> remove_each to_remove [example_near, example_far] = Inr unused'
       \<and> (example_near, Some (26 / 27)) \<in> set cluster \<and> example_near \<notin> set unused'
       \<and> (example_far, Some (4 / 26)) \<notin> set (tl cluster) \<and> example_far \<in> set unused'
       \<and> (\<exists>gs. group_fuzzy common_prefix [example_rep, example_near, example_far] (82 / 100) =
                   Inr ((if length cluster > 1 then [cluster] else []) @ gs)))"
proof -
  have b: "\<And>a b. common_prefix a b \<le> min (length a) (length b)"
    by (rule common_prefix_le)
  have near: "ratio common_prefix (norm' example_rep) (norm' example_near) = 26 / 27"
    by (simp add: ratio_def example_rep_def example_near_def)
  have far: "ratio common_prefix (norm' example_rep) (norm' example_far) = 4 / 26"
    by (simp add: ratio_def example_rep_def example_far_def)
  have run: "group_fuzzy common_prefix [example_rep, example_near, example_far] (82 / 100) =
       Inr [[(example_rep, None), (example_near, Some (26 / 27))]]"
    by code_simp
  from fuzzy_cluster_of_representative[OF b, of example_rep "[example_near, example_far]" "[]"]
  obtain cluster to_remove unused' where
    all: "compare_pool common_prefix (82 / 100) example_rep [example_near, example_far]
           [(example_rep, None)] [] = (cluster, to_remove)
    \<and> remove_each to_remove [example_near, example_far] = Inr unused'
    \<and> fuzzy_loop common_prefix (82 / 100) (example_rep # [example_near, example_far]) [] =
        fuzzy_loop common_prefix (82 / 100) unused'
          (if length cluster > 1 then [] @ [cluster] else [])
    \<and> (\<forall>other\<in>set [example_near, example_far].
          82 / 100 \<le> ratio common_prefix (norm' example_rep) (norm' other)
            \<and> ratio common_prefix (norm' example_rep) (norm' other) < 1 \<longrightarrow>
          (other, Some (ratio common_prefix (norm' example_rep) (norm' other))) \<in> set cluster
            \<and> other \<notin> set unused')
    \<and> (\<forall>other\<in>set [example_near, example_far].
          ratio common_prefix (norm' example_rep) (norm' other) < 82 / 100 \<longrightarrow>
          (\<forall>sc. (other, sc) \<notin> set (tl cluster)) \<and> other \<in> set unused')
    \<and> (\<exists>gs. fuzzy_loop common_prefix (82 / 100) (example_rep # [example_near, example_far]) [] =
                Inr ([] @ (if length cluster > 1 then [cluster] else []) @ gs)
           \<and> (\<forall>c\<in>set gs. fst ` set c \<subseteq> set unused'))
    \<and> (\<exists>gs. group_fuzzy common_prefix (example_rep # [example_near, example_far]) (82 / 100) =
                Inr ((if length cluster > 1 then [cluster] else []) @ gs)
           \<and> (\<forall>c\<in>set gs. fst ` set c \<subseteq> set unused'))"
    by (elim exE) (rule that)
  from all have
    1: "compare_pool common_prefix (82 / 100) example_rep [example_near, example_far]
           [(example_rep, None)] [] = (cluster, to_remove)"
    by (elim conjE)
  from all have
    2: "remove_each to_remove [example_near, example_far] = Inr unused'"
    by (elim conjE)
  from all have
    3: "\<forall>other\<in>set [example_near, example_far].
          82 / 100 \<le> ratio common_prefix (norm' example_rep) (norm' other)
            \<and> ratio common_prefix (norm' example_rep) (norm' other) < 1 \<longrightarrow>
          (other, Some (ratio common_prefix (norm' example_rep) (norm' other))) \<in> set cluster
            \<and> other \<notin> set unused'"
    by (elim conjE)
  from all have
    4: "\<forall>other\<in>set [example_near, example_far].
          ratio common_prefix (norm' example_rep) (norm' other) < 82 / 100 \<longrightarrow>
          (\<forall>sc. (other, sc) \<notin> set (tl cluster)) \<and> other \<in> set unused'"
    by (elim conjE)
  from all have
    7: "\<exists>gs. group_fuzzy common_prefix (example_rep # [example_near, example_far]) (82 / 100) =
                Inr ((if length cluster > 1 then [cluster] else []) @ gs)
           \<and> (\<forall>c\<in>set gs. fst ` set c \<subseteq> set unused')"
    by (elim conjE)
  from 3 near have 5: "(example_near, Some (26 / 27)) \<in> set cluster \<and> example_near \<notin> set unused'"
    by simp
  from 4 far have 6: "(example_far, Some (4 / 26)) \<notin> set (tl cluster) \<and> example_far \<in> set unused'"
    by simp
  from 7 obtain gs where "group_fuzzy common_prefix (example_rep # [example_near, example_far])
        (82 / 100) = Inr ((if length cluster > 1 then [cluster] else []) @ gs)"
    by (elim exE conjE)
  then have 8: "\<exists>gs. group_fuzzy common_prefix [example_rep, example_near, example_far] (82 / 100) =
                   Inr ((if length cluster > 1 then [cluster] else []) @ gs)"
    by (rule exI)
  from 5 6 have 9: "(example_near, Some (26 / 27)) \<in> set cluster" "example_near \<notin> set unused'"
    "(example_far, Some (4 / 26)) \<notin> set (tl cluster)" "example_far \<in> set unused'"
    by blast+
  have 10: "\<forall>a b. common_prefix a b \<le> min (length a) (length b)"
    using b by blast
  show ?thesis
    by (intro conjI exI[of _ cluster] exI[of _ to_remove] exI[of _ unused'] 10 near far run 1 2 9 8)
qed

subsection \<open>Exact groups and the input of the fuzzy clustering\<close>

text \<open>
  The invariant of a dictionary filled with \<open>d[key(f)].append(f)\<close> from records of \<open>S\<close>:
  no list is empty, and every list holds records of \<open>S\<close> with the key it is stored under.
\<close>

definition dict_inv :: "('v \<Rightarrow> 'k) \<Rightarrow> 'v set \<Rightarrow> ('k \<times> 'v list) list \<Rightarrow> bool" where
  "dict_inv key S d =
     (\<forall>k items. (k, items) \<in> set d \<longrightarrow> items \<noteq> [] \<and> (\<forall>f\<in>set items. key f = k \<and> f \<in> S))"

lemma dict_append_set:
  "(k, items) \<in> set (dict_append k0 f d) \<Longrightarrow>
     (k, items) \<in> set d \<or> (k = k0 \<and> items = [f])
       \<or> (k = k0 \<and> (\<exists>old. (k0, old) \<in> set d \<and> items = old @ [f]))"
  by (induction d) (auto split: if_splits)

lemma dict_append_inv:
  assumes "dict_inv key S d" and "f \<in> S"
  shows "dict_inv key S (dict_append (key f) f d)"
  unfolding dict_inv_def
proof (intro allI impI)
  fix k items assume "(k, items) \<in> set (dict_append (key f) f d)"
  from dict_append_set[OF this] assms
  show "items \<noteq> [] \<and> (\<forall>f\<in>set items. key f = k \<and> f \<in> S)"
    unfolding dict_inv_def by fastforce
qed

lemma fold_dict_append_inv:
  "dict_inv key S d \<Longrightarrow> set fs \<subseteq> S \<Longrightarrow>
     dict_inv key S (fold (\<lambda>f d. dict_append (key f) f d) fs d)"
proof (induction fs arbitrary: d)
  case Nil
  then show ?case by simp
next
  case (Cons f fs)
  from Cons.prems have "f \<in> S" "set fs \<subseteq> S" by auto
  from Cons.IH[OF dict_append_inv[OF Cons.prems(1) \<open>f \<in> S\<close>] \<open>set fs \<subseteq> S\<close>]
  show ?case by simp
qed

lemma group_exact_group:
  assumes "g \<in> set (group_exact funcs)"
  shows "1 < length g \<and> set g \<subseteq> set funcs \<and> norm' (hd g) \<noteq> []
           \<and> (\<forall>f\<in>set g. norm' f = norm' (hd g))"
proof -
  let ?d = "fold (\<lambda>f d. dict_append (norm' f) f d) funcs []"
  from assms obtain k where k: "(k, g) \<in> set ?d" "1 < length g" "k \<noteq> []"
    unfolding group_exact_def Let_def by auto
  have "dict_inv norm' (set funcs) ?d"
    by (rule fold_dict_append_inv) (simp_all add: dict_inv_def)
  with k(1) have g: "g \<noteq> []" "\<forall>f\<in>set g. norm' f = k \<and> f \<in> set funcs"
    unfolding dict_inv_def by blast+
  from g have "norm' (hd g) = k" by simp
  with g k show ?thesis by auto
qed

lemma exact_norms_Cons_member:
  "f # fs \<in> set gs \<Longrightarrow> norm' f \<noteq> [] \<Longrightarrow> norm' f \<in> set (exact_norms gs)"
  by (induction gs) (auto simp: exact_norms_def)

lemma exact_norms_member:
  assumes "g \<in> set (group_exact funcs)"
  shows "norm' (hd g) \<in> set (exact_norms (group_exact funcs))"
proof -
  from group_exact_group[OF assms] have l: "1 < length g" and n: "norm' (hd g) \<noteq> []"
    by simp_all
  from l obtain f fs where g: "g = f # fs"
    by (cases g) simp_all
  from assms n show ?thesis
    unfolding g by (simp add: exact_norms_Cons_member)
qed

text \<open>
  Claim C5. \<open>main\<close> gives \<open>group_fuzzy\<close> the records \<open>remaining funcs\<close>. The clustering
  returns (it raises nothing); every record whose \<open>norm\<close> is the \<open>norm\<close> of a member of an
  exact-body-duplicate group is missing from \<open>remaining funcs\<close>; every member of every
  fuzzy cluster is a record of \<open>remaining funcs\<close>; so no record is a member of an exact
  group and of a fuzzy cluster. The report lists exactly the members of these groups.
\<close>

theorem exact_and_fuzzy_disjoint:
  "\<exists>fuzzy_groups. group_fuzzy M (remaining funcs) (82 / 100) = Inr fuzzy_groups
     \<and> (\<forall>g\<in>set (group_exact funcs). \<forall>f\<in>set funcs.
           norm' f \<in> norm' ` set g \<longrightarrow> f \<notin> set (remaining funcs))
     \<and> (\<forall>c\<in>set fuzzy_groups. fst ` set c \<subseteq> set (remaining funcs))
     \<and> (\<forall>g\<in>set (group_exact funcs). \<forall>c\<in>set fuzzy_groups. set g \<inter> fst ` set c = {})"
proof -
  from fuzzy_loop_result[of M "82 / 100" "remaining funcs" "[]"]
  obtain gs where gs: "group_fuzzy M (remaining funcs) (82 / 100) = Inr gs"
    "\<forall>c\<in>set gs. \<exists>rep pool. rep \<in> set (remaining funcs) \<and> set pool \<subseteq> set (remaining funcs)
        \<and> filter (absorbed M (82 / 100) rep) pool \<noteq> [] \<and> c = cluster_of M (82 / 100) rep pool"
    by (auto simp: group_fuzzy_def)
  have a: "\<forall>g\<in>set (group_exact funcs). \<forall>f\<in>set funcs.
           norm' f \<in> norm' ` set g \<longrightarrow> f \<notin> set (remaining funcs)"
  proof (intro ballI impI)
    fix g f assume g: "g \<in> set (group_exact funcs)" and "f \<in> set funcs" and "norm' f \<in> norm' ` set g"
    with group_exact_group[OF g] have "norm' f = norm' (hd g)" by auto
    with exact_norms_member[OF g] show "f \<notin> set (remaining funcs)"
      by (simp add: remaining_def)
  qed
  have b: "\<forall>c\<in>set gs. fst ` set c \<subseteq> set (remaining funcs)"
  proof
    fix c assume "c \<in> set gs"
    with gs(2) obtain rep pool where "rep \<in> set (remaining funcs)" "set pool \<subseteq> set (remaining funcs)"
      "c = cluster_of M (82 / 100) rep pool" by blast
    with cluster_of_members[of M "82 / 100" rep pool] show "fst ` set c \<subseteq> set (remaining funcs)"
      by (simp add: subset_iff) blast
  qed
  have c: "\<forall>g\<in>set (group_exact funcs). \<forall>c\<in>set gs. set g \<inter> fst ` set c = {}"
  proof (intro ballI)
    fix g c assume g: "g \<in> set (group_exact funcs)" and c: "c \<in> set gs"
    have sub: "set g \<subseteq> set funcs"
      using group_exact_group[OF g] by simp
    have "f \<notin> set (remaining funcs)" if "f \<in> set g" for f
    proof -
      from that sub have "f \<in> set funcs" "norm' f \<in> norm' ` set g" by auto
      with a g show ?thesis by blast
    qed
    moreover from b c have "fst ` set c \<subseteq> set (remaining funcs)" by (rule bspec)
    ultimately show "set g \<inter> fst ` set c = {}" by auto
  qed
  show ?thesis
    by (intro exI[of _ gs] conjI gs(1) a b c)
qed


definition example_dup :: func where
  "example_dup = \<lparr>path = ''d.js'', start_line = 5, end_line = 5, name = Some ''f'',
     snippet = ''f(a) { g(a)  }'', code = ''f(a) { g(a)  }'', norm' = ''f(a) { g(a) }''\<rparr>"

definition example_funcs :: "func list" where
  "example_funcs = [example_rep, example_near, example_dup, example_far,
     example_near\<lparr>path := ''e.js''\<rparr>, example_far\<lparr>path := ''f.js'', norm' := ''f(b) { h(b) };''\<rparr>]"

theorem exact_and_fuzzy_disjoint_witness:
  "map (map path) (group_exact example_funcs) = [[''a.js'', ''d.js''], [''b.js'', ''e.js'']]
   \<and> map path (remaining example_funcs) = [''c.js'', ''f.js'']
   \<and> (\<exists>fuzzy_groups.
         group_fuzzy common_prefix (remaining example_funcs) (82 / 100) = Inr fuzzy_groups
       \<and> map (map (path \<circ> fst)) fuzzy_groups = [[''c.js'', ''f.js'']]
       \<and> list_all (\<lambda>g. list_all (\<lambda>c. set g \<inter> fst ` set c = {}) fuzzy_groups)
            (group_exact example_funcs))"
proof -
  have a: "map (map path) (group_exact example_funcs) = [[''a.js'', ''d.js''], [''b.js'', ''e.js'']]"
    by code_simp
  have b: "map path (remaining example_funcs) = [''c.js'', ''f.js'']"
    by code_simp
  have c: "case group_fuzzy common_prefix (remaining example_funcs) (82 / 100) of
             Inl e \<Rightarrow> False
           | Inr fuzzy_groups \<Rightarrow> map (map (path \<circ> fst)) fuzzy_groups = [[''c.js'', ''f.js'']]"
    by code_simp
  from exact_and_fuzzy_disjoint[of common_prefix example_funcs]
  obtain fuzzy_groups where
    1: "group_fuzzy common_prefix (remaining example_funcs) (82 / 100) = Inr fuzzy_groups" and
    2: "\<forall>g\<in>set (group_exact example_funcs). \<forall>c\<in>set fuzzy_groups. set g \<inter> fst ` set c = {}"
    by (elim exE conjE)
  from c 1 have 3: "map (map (path \<circ> fst)) fuzzy_groups = [[''c.js'', ''f.js'']]"
    by simp
  from 2 have 4: "list_all (\<lambda>g. list_all (\<lambda>c. set g \<inter> fst ` set c = {}) fuzzy_groups)
            (group_exact example_funcs)"
    unfolding list_all_iff .
  show ?thesis
    by (intro conjI exI[of _ fuzzy_groups] a b 1 3 4)
qed

section \<open>Properties of the report\<close>

subsection \<open>Floats and rounding\<close>








subsection \<open>The report is produced\<close>












subsection \<open>Reported similarities\<close>

text \<open>
  Claim C9 says that every similarity in a fuzzy cluster of the output document is
  strictly below 1. The document holds \<open>round(score, 3)\<close>, and a score of \<open>0.9995\<close> or
  more rounds to \<open>1.0\<close>. The two records below are two one-line functions, the second
  with a semicolon behind its closing brace; their normalized texts have 1075 and 1076
  characters, and the first is a prefix of the second. (On these two texts \<open>difflib\<close>
  finds the one matching block of 1075 characters, which is what \<open>common_prefix\<close>
  counts.) The score is \<open>2150 / 2151\<close>, below 1, and the reported similarity is 1.
\<close>

definition filler :: string where
  "filler = concat (replicate 17 ''ABCDEFGHIJKLMNOPQRSTUVWXYZabcdefghijklmnopqrstuvwxyz0123456789'')"

definition long_a :: string where
  "long_a = ''function f() { g('' @ filler @ ''); }''"

definition long_b :: string where
  "long_b = long_a @ '';''"

definition long_rec_a :: func where
  "long_rec_a = \<lparr>path = ''a.js'', start_line = 1, end_line = 1, name = Some ''f'',
     snippet = take 120 long_a, code = long_a, norm' = long_a\<rparr>"

definition long_rec_b :: func where
  "long_rec_b = \<lparr>path = ''b.js'', start_line = 1, end_line = 1, name = Some ''f'',
     snippet = take 120 long_b, code = long_b, norm' = long_b\<rparr>"








lemma rec_ne: "long_rec_a \<noteq> long_rec_b"
  by (simp add: long_rec_a_def long_rec_b_def)










section \<open>Properties of the normalizer\<close>

text \<open>
  \<open>no_dslash t\<close>: the text has no two slashes in a row, so no line comment.
  \<open>has_block t\<close>: the text has a block comment, a \<open>/*\<close> with a \<open>*/\<close> behind it, which is
  what \<open>strip_block\<close> removes. \<open>collapsed t\<close>: every whitespace character of the text is a
  single space between two other characters or at an end.
\<close>

fun no_dslash :: "string \<Rightarrow> bool" where
  "no_dslash [] = True"
| "no_dslash [c] = True"
| "no_dslash (c # d # r) = (\<not> (c = CHR ''/'' \<and> d = CHR ''/'') \<and> no_dslash (d # r))"

fun has_block :: "string \<Rightarrow> bool" where
  "has_block [] = False"
| "has_block [c] = False"
| "has_block (c # d # r) =
     ((c = CHR ''/'' \<and> d = CHR ''*'' \<and> after_close r \<noteq> None) \<or> has_block (d # r))"

lemma no_dslash_Cons:
  "no_dslash (c # w) =
     ((case w of [] \<Rightarrow> True | d # _ \<Rightarrow> \<not> (c = CHR ''/'' \<and> d = CHR ''/'')) \<and> no_dslash w)"
  by (cases w) auto

lemma no_dslash_tl: "no_dslash (c # w) \<Longrightarrow> no_dslash w"
  by (simp add: no_dslash_Cons)

lemma no_dslash_drop: "no_dslash w \<Longrightarrow> no_dslash (drop n w)"
proof (induction n arbitrary: w)
  case 0
  then show ?case by simp
next
  case (Suc n)
  then show ?case by (cases w) (auto dest: no_dslash_tl)
qed

lemma no_dslash_take: "no_dslash w \<Longrightarrow> no_dslash (take n w)"
proof (induction w arbitrary: n rule: no_dslash.induct)
  case 1
  then show ?case by simp
next
  case (2 c)
  then show ?case by (cases n) simp_all
next
  case (3 c d r)
  show ?case
  proof (cases n)
    case 0
    then show ?thesis by simp
  next
    case (Suc k)
    from "3.prems" have nd: "\<not> (c = CHR ''/'' \<and> d = CHR ''/'')" "no_dslash (d # r)" by simp_all
    from "3.IH"[OF nd(2), of k] have "no_dslash (take k (d # r))" .
    with nd(1) show ?thesis unfolding Suc by (cases k) simp_all
  qed
qed

lemma strip_line_head: "d \<noteq> CHR ''/'' \<Longrightarrow> \<exists>r'. strip_line (d # r) = d # r'"
  by (cases r) simp_all

lemma strip_line_no_dslash: "no_dslash (strip_line v)"
proof (induction v rule: strip_line.induct)
  case 1
  show ?case by simp
next
  case (2 c)
  show ?case by simp
next
  case (3 c d r)
  show ?case
  proof (cases "c = CHR ''/'' \<and> d = CHR ''/''")
    case True
    with 3 show ?thesis by simp
  next
    case False
    with 3 have ih: "no_dslash (strip_line (d # r))" by simp
    show ?thesis
    proof (cases "c = CHR ''/''")
      case True
      with False have "d \<noteq> CHR ''/''" by simp
      from strip_line_head[OF this, of r] obtain r' where r': "strip_line (d # r) = d # r'" ..
      with ih \<open>d \<noteq> CHR ''/''\<close> False show ?thesis by simp
    next
      case c: False
      with ih False show ?thesis by (simp add: no_dslash_Cons split: list.splits)
    qed
  qed
qed

lemma strip_line_id: "no_dslash t \<Longrightarrow> strip_line t = t"
  by (induction t rule: strip_line.induct) auto

lemma strip_block_id: "\<not> has_block t \<Longrightarrow> strip_block t = t"
  by (induction t rule: strip_block.induct) (auto split: option.splits)


lemma is_space_simps [simp]: "is_space (CHR '' '')" "\<not> is_space (CHR ''/'')"
  by (simp_all add: is_space_def)

lemma collapse_ws_head:
  "collapse_ws (d # r) = (if is_space d then CHR '' '' else d) # tl (collapse_ws (d # r))"
  by simp

lemma no_dslash_dropWhile: "no_dslash w \<Longrightarrow> no_dslash (dropWhile P w)"
  by (simp add: dropWhile_eq_drop no_dslash_drop)

lemma collapse_ws_no_dslash: "no_dslash w \<Longrightarrow> no_dslash (collapse_ws w)"
proof (induction w rule: collapse_ws.induct)
  case 1
  show ?case by simp
next
  case (2 c r)
  show ?case
  proof (cases "is_space c")
    case True
    from "2.prems" have "no_dslash (dropWhile is_space r)"
      by (intro no_dslash_dropWhile) (rule no_dslash_tl)
    with "2.IH"(1)[OF True] have "no_dslash (collapse_ws (dropWhile is_space r))" .
    with True show ?thesis by (simp add: no_dslash_Cons split: list.splits)
  next
    case False
    from "2.prems" have r: "no_dslash r" by (rule no_dslash_tl)
    with "2.IH"(2)[OF False] have ih: "no_dslash (collapse_ws r)" .
    show ?thesis
    proof (cases r)
      case Nil
      with False show ?thesis by simp
    next
      case (Cons d r')
      from "2.prems" have nd: "\<not> (c = CHR ''/'' \<and> d = CHR ''/'')" unfolding Cons by simp
      have "collapse_ws r = (if is_space d then CHR '' '' else d) # tl (collapse_ws r)"
        unfolding Cons by (rule collapse_ws_head)
      then obtain x where x: "collapse_ws r = (if is_space d then CHR '' '' else d) # x" ..
      have "\<not> (c = CHR ''/'' \<and> (if is_space d then CHR '' '' else d) = CHR ''/'')"
        using nd by auto
      with ih show ?thesis
        using False unfolding x by (simp del: collapse_ws.simps(2) add: collapse_ws.simps(2)[of c r] x)
    qed
  qed
qed

fun collapsed :: "string \<Rightarrow> bool" where
  "collapsed [] = True"
| "collapsed (c # r) =
     ((is_space c \<longrightarrow> c = CHR '' '' \<and> (case r of [] \<Rightarrow> True | d # _ \<Rightarrow> \<not> is_space d))
      \<and> collapsed r)"

lemma dropWhile_head: "dropWhile P xs = d # r \<Longrightarrow> \<not> P d"
  by (metis hd_dropWhile list.sel(1) list.distinct(1))

lemma collapse_ws_collapsed: "collapsed (collapse_ws w)"
proof (induction w rule: collapse_ws.induct)
  case 1
  show ?case by simp
next
  case (2 c r)
  show ?case
  proof (cases "is_space c")
    case True
    with 2 have ih: "collapsed (collapse_ws (dropWhile is_space r))" by simp
    have "case collapse_ws (dropWhile is_space r) of [] \<Rightarrow> True | d # _ \<Rightarrow> \<not> is_space d"
    proof (cases "dropWhile is_space r")
      case Nil
      show ?thesis unfolding Nil by simp
    next
      case (Cons d r')
      from dropWhile_head[OF Cons] have "\<not> is_space d" .
      then show ?thesis unfolding Cons by simp
    qed
    with ih True show ?thesis by simp
  next
    case False
    with 2 show ?thesis by simp
  qed
qed

lemma collapse_ws_id: "collapsed w \<Longrightarrow> collapse_ws w = w"
proof (induction w rule: collapse_ws.induct)
  case 1
  show ?case by simp
next
  case (2 c r)
  from "2.prems" have r: "collapsed r" by simp
  show ?case
  proof (cases "is_space c")
    case True
    with "2.prems" have c: "c = CHR '' ''" and h: "case r of [] \<Rightarrow> True | d # _ \<Rightarrow> \<not> is_space d"
      by simp_all
    from h have d: "dropWhile is_space r = r" by (cases r) simp_all
    from "2.IH"(1)[OF True] r have "collapse_ws (dropWhile is_space r) = r" unfolding d by simp
    with True c show ?thesis by simp
  next
    case False
    with "2.IH"(2)[OF False r] show ?thesis by simp
  qed
qed

lemma collapsed_drop: "collapsed w \<Longrightarrow> collapsed (drop n w)"
proof (induction n arbitrary: w)
  case 0
  then show ?case by simp
next
  case (Suc n)
  then show ?case by (cases w) simp_all
qed

lemma collapsed_take: "collapsed w \<Longrightarrow> collapsed (take n w)"
proof (induction w arbitrary: n)
  case Nil
  then show ?case by simp
next
  case (Cons c r)
  show ?case
  proof (cases n)
    case 0
    then show ?thesis by simp
  next
    case (Suc k)
    from Cons.prems have r: "collapsed r" by simp
    from Cons.IH[OF r, of k] have ih: "collapsed (take k r)" .
    have "case take k r of [] \<Rightarrow> True | d # _ \<Rightarrow> \<not> is_space d"
      if "case r of [] \<Rightarrow> True | d # _ \<Rightarrow> \<not> is_space d"
      using that by (cases r; cases k) simp_all
    with Cons.prems ih show ?thesis unfolding Suc by simp
  qed
qed

lemma strip_take_drop:
  "\<exists>n k. strip w = take n (drop k w)"
proof -
  have "strip w = rev (dropWhile is_space (rev (dropWhile is_space w)))"
    by (simp add: strip_def)
  also have "\<dots> = rev (drop (length (takeWhile is_space (rev (dropWhile is_space w))))
                      (rev (dropWhile is_space w)))"
    by (simp only: dropWhile_eq_drop[of is_space "rev (dropWhile is_space w)"])
  also have "\<dots> = take (length (dropWhile is_space w)
                  - length (takeWhile is_space (rev (dropWhile is_space w)))) (dropWhile is_space w)"
    by (simp add: rev_drop)
  also have "dropWhile is_space w = drop (length (takeWhile is_space w)) w"
    by (rule dropWhile_eq_drop)
  finally show ?thesis by blast
qed

lemma take_Cons_head: "take n x = d # r \<Longrightarrow> \<exists>r'. x = d # r'"
  by (cases x; cases n) simp_all

lemma strip_idem: "strip (strip w) = strip w"
proof -
  let ?x = "dropWhile is_space w"
  let ?y = "dropWhile is_space (rev ?x)"
  have v: "strip w = rev ?y" by (simp add: strip_def)
  have y: "dropWhile is_space ?y = ?y"
    by (cases ?y) (auto dest: dropWhile_head)
  have z: "dropWhile is_space (rev ?y) = rev ?y"
  proof (cases "rev ?y")
    case Nil
    show ?thesis unfolding Nil by simp
  next
    case (Cons d r)
    have "rev ?y = take (length ?x - length (takeWhile is_space (rev ?x))) ?x"
      by (simp add: dropWhile_eq_drop[of is_space "rev ?x"] rev_drop)
    with Cons have "take (length ?x - length (takeWhile is_space (rev ?x))) ?x = d # r"
      by simp
    from take_Cons_head[OF this] obtain r' where "?x = d # r'" ..
    from dropWhile_head[OF this] have "\<not> is_space d" .
    then show ?thesis unfolding Cons by simp
  qed
  have "strip (rev ?y) = rev (dropWhile is_space (rev (dropWhile is_space (rev ?y))))"
    by (rule strip_def)
  also have "\<dots> = rev (dropWhile is_space (rev (rev ?y)))"
    by (simp only: z)
  also have "\<dots> = rev ?y"
    by (simp only: rev_rev_ident y)
  finally show ?thesis
    unfolding v .
qed


lemma no_dslash_strip: "no_dslash w \<Longrightarrow> no_dslash (strip w)"
proof -
  assume w: "no_dslash w"
  from strip_take_drop[of w] obtain n k where s: "strip w = take n (drop k w)" by blast
  show ?thesis unfolding s by (intro no_dslash_take no_dslash_drop w)
qed

lemma collapsed_strip: "collapsed w \<Longrightarrow> collapsed (strip w)"
proof -
  assume w: "collapsed w"
  from strip_take_drop[of w] obtain n k where s: "strip w = take n (drop k w)" by blast
  show ?thesis unfolding s by (intro collapsed_take collapsed_drop w)
qed

lemma normalize_no_dslash: "no_dslash (normalize s)"
  unfolding normalize_def strip_comments_def
  by (intro no_dslash_strip collapse_ws_no_dslash strip_line_no_dslash)

lemma normalize_collapsed: "collapsed (normalize s)"
  unfolding normalize_def by (intro collapsed_strip collapse_ws_collapsed)

lemma normalize_idem:
  assumes "\<not> has_block (normalize s)"
  shows "normalize (normalize s) = normalize s"
proof -
  let ?t = "normalize s"
  have "strip_comments ?t = ?t"
    unfolding strip_comments_def
    by (simp only: strip_block_id[OF assms] strip_line_id[OF normalize_no_dslash])
  moreover have "collapse_ws ?t = ?t"
    by (rule collapse_ws_id[OF normalize_collapsed])
  moreover have "strip ?t = ?t"
    unfolding normalize_def by (rule strip_idem)
  ultimately show ?thesis
    unfolding normalize_def[of "normalize s"] by simp
qed

lemma strip_line_no_slash: "CHR ''/'' \<notin> set s \<Longrightarrow> strip_line s = s"
  by (induction s rule: strip_line.induct) auto

lemma strip_block_no_slash: "CHR ''/'' \<notin> set s \<Longrightarrow> strip_block s = s"
  by (induction s rule: strip_block.induct) auto

lemma dropWhile_all: "\<forall>c\<in>set s. P c \<Longrightarrow> dropWhile P s = []"
  by (induction s) simp_all

lemma collapse_ws_all_space: "s \<noteq> [] \<Longrightarrow> \<forall>c\<in>set s. is_space c \<Longrightarrow> collapse_ws s = '' ''"
proof -
  assume "s \<noteq> []" and a: "\<forall>c\<in>set s. is_space c"
  then obtain c r where s: "s = c # r" by (cases s) auto
  from a have "is_space c" "dropWhile is_space r = []"
    unfolding s by (simp_all add: dropWhile_all)
  then show ?thesis unfolding s by (simp del: dropWhile_eq_Nil_conv)
qed

lemma normalize_whitespace:
  assumes "\<forall>c\<in>set s. is_space c"
  shows "normalize s = []"
proof (cases "s = []")
  case True
  then show ?thesis by (simp add: normalize_def strip_comments_def strip_def)
next
  case False
  from assms have "CHR ''/'' \<notin> set s" by auto
  then have "strip_comments s = s"
    by (simp add: strip_comments_def strip_block_no_slash strip_line_no_slash)
  with collapse_ws_all_space[OF False assms] show ?thesis
    by (simp add: normalize_def strip_def)
qed

lemma strip_block_length: "length (strip_block t) \<le> length t"
proof (induction t rule: strip_block.induct)
  case 1
  show ?case by simp
next
  case (2 c)
  show ?case by simp
next
  case (3 c d r)
  show ?case
  proof (cases "c = CHR ''/'' \<and> d = CHR ''*''")
    case True
    show ?thesis
    proof (cases "after_close r")
      case None
      from "3.IH"(1)[OF True None] True None show ?thesis by simp
    next
      case (Some r')
      from "3.IH"(2)[OF True Some] after_close_length[OF Some] True Some
      show ?thesis by simp
    qed
  next
    case False
    from "3.IH"(3)[OF False] False show ?thesis by auto
  qed
qed

lemma strip_block_shorter: "has_block t \<Longrightarrow> length (strip_block t) < length t"
proof (induction t rule: strip_block.induct)
  case 1
  then show ?case by simp
next
  case (2 c)
  then show ?case by simp
next
  case (3 c d r)
  show ?case
  proof (cases "c = CHR ''/'' \<and> d = CHR ''*''")
    case True
    show ?thesis
    proof (cases "after_close r")
      case None
      with "3.prems" have "has_block (d # r)" by simp
      from "3.IH"(1)[OF True None this] True None show ?thesis by simp
    next
      case (Some r')
      from strip_block_length[of r'] after_close_length[OF Some] True Some
      show ?thesis by simp
    qed
  next
    case False
    with "3.prems" have "has_block (d # r)" by auto
    from "3.IH"(3)[OF False this] False show ?thesis by auto
  qed
qed

lemma strip_line_length: "length (strip_line x) \<le> length x"
proof (induction x rule: strip_line.induct)
  case 1
  show ?case by simp
next
  case (2 c)
  show ?case by simp
next
  case (3 c d r)
  show ?case
  proof (cases "c = CHR ''/'' \<and> d = CHR ''/''")
    case True
    with "3.IH"(1) have "length (strip_line (dropWhile (\<lambda>x. x \<noteq> CHR 0x0A) r))
        \<le> length (dropWhile (\<lambda>x. x \<noteq> CHR 0x0A) r)" by simp
    also have "\<dots> \<le> length r" by (rule length_dropWhile_le)
    finally show ?thesis using True by simp
  next
    case False
    with 3 show ?thesis by auto
  qed
qed

lemma collapse_ws_length: "length (collapse_ws x) \<le> length x"
proof (induction x rule: collapse_ws.induct)
  case 1
  show ?case by simp
next
  case (2 c r)
  show ?case
  proof (cases "is_space c")
    case True
    with "2.IH"(1) have "length (collapse_ws (dropWhile is_space r)) \<le> length (dropWhile is_space r)"
      by simp
    also have "\<dots> \<le> length r" by (rule length_dropWhile_le)
    finally show ?thesis using True by simp
  next
    case False
    with 2 show ?thesis by simp
  qed
qed

lemma strip_length: "length (strip x) \<le> length x"
proof -
  from strip_take_drop[of x] obtain n k where s: "strip x = take n (drop k x)" by blast
  show ?thesis unfolding s by simp
qed

lemma normalize_shorter:
  assumes "has_block t"
  shows "length (normalize t) < length t"
proof -
  have "length (normalize t) \<le> length (collapse_ws (strip_comments t))"
    unfolding normalize_def by (rule strip_length)
  also have "\<dots> \<le> length (strip_comments t)" by (rule collapse_ws_length)
  also have "\<dots> \<le> length (strip_block t)"
    unfolding strip_comments_def by (rule strip_line_length)
  also have "\<dots> < length t" by (rule strip_block_shorter[OF assms])
  finally show ?thesis .
qed

lemma normalize_idem_iff:
  "normalize (normalize s) = normalize s \<longleftrightarrow> \<not> has_block (normalize s)"
proof
  assume e: "normalize (normalize s) = normalize s"
  show "\<not> has_block (normalize s)"
  proof
    assume "has_block (normalize s)"
    from normalize_shorter[OF this] show False unfolding e by simp
  qed
next
  assume "\<not> has_block (normalize s)"
  then show "normalize (normalize s) = normalize s" by (rule normalize_idem)
qed

text \<open>
  Claim C2 says that normalizing twice is normalizing once. Removing a block comment
  can join a slash before it and a star behind it to the opening of a new block
  comment, which only a second normalization removes: \<open>//**/**/\<close> is a slash, the empty
  block comment and \<open>**/\<close>; its normalized form is \<open>/**/\<close>, whose normalized form is
  empty.
\<close>

theorem normalize_idempotence_counterexample:
  "normalize ''//**/**/'' = ''/**/'' \<and> normalize (normalize ''//**/**/'') = []"
  by code_simp

text \<open>
  Claim C2, amended. Normalization is a function of its input alone; every input of
  whitespace only (the empty string included) normalizes to the empty string; and
  \<open>normalize (normalize s) = normalize s\<close> holds exactly when \<open>normalize s\<close> contains no
  block comment, that is, unless removing the comments of \<open>s\<close> has put a new block
  comment together.
\<close>

theorem normalize_pure_and_idempotent:
  "(s = s' \<longrightarrow> normalize s = normalize s')
   \<and> ((\<forall>c\<in>set s. is_space c) \<longrightarrow> normalize s = [])
   \<and> (normalize (normalize s) = normalize s \<longleftrightarrow> \<not> has_block (normalize s))"
proof (intro conjI impI)
  assume "s = s'"
  then show "normalize s = normalize s'" by (rule arg_cong)
next
  assume "\<forall>c\<in>set s. is_space c"
  then show "normalize s = []" by (rule normalize_whitespace)
next
  show "normalize (normalize s) = normalize s \<longleftrightarrow> \<not> has_block (normalize s)"
    by (rule normalize_idem_iff)
qed

theorem normalize_pure_and_idempotent_witness:
  "list_all is_space [CHR '' '', CHR 0x09, CHR 0x0A, CHR 0xA0]
   \<and> normalize [CHR '' '', CHR 0x09, CHR 0x0A, CHR 0xA0] = []
   \<and> normalize (''  a  /* x */ b // c'' @ [CHR 0x0A]) = ''a b''
   \<and> \<not> has_block (normalize (''  a  /* x */ b // c'' @ [CHR 0x0A]))
   \<and> normalize (normalize (''  a  /* x */ b // c'' @ [CHR 0x0A])) =
       normalize (''  a  /* x */ b // c'' @ [CHR 0x0A])"
proof -
  have a: "list_all is_space [CHR '' '', CHR 0x09, CHR 0x0A, CHR 0xA0]"
    by code_simp
  then have ball: "\<forall>c\<in>set [CHR '' '', CHR 0x09, CHR 0x0A, CHR 0xA0]. is_space c"
    unfolding list_all_iff .
  from normalize_pure_and_idempotent[of "[CHR '' '', CHR 0x09, CHR 0x0A, CHR 0xA0]"
      "[CHR '' '', CHR 0x09, CHR 0x0A, CHR 0xA0]"]
  have "(\<forall>c\<in>set [CHR '' '', CHR 0x09, CHR 0x0A, CHR 0xA0]. is_space c) \<longrightarrow>
      normalize [CHR '' '', CHR 0x09, CHR 0x0A, CHR 0xA0] = []"
    by (elim conjE)
  from this ball have b: "normalize [CHR '' '', CHR 0x09, CHR 0x0A, CHR 0xA0] = []"
    by (rule mp)
  have c: "normalize (''  a  /* x */ b // c'' @ [CHR 0x0A]) = ''a b''"
    by code_simp
  have d: "\<not> has_block (normalize (''  a  /* x */ b // c'' @ [CHR 0x0A]))"
    unfolding c by code_simp
  from normalize_pure_and_idempotent[of "''  a  /* x */ b // c'' @ [CHR 0x0A]"
      "''  a  /* x */ b // c'' @ [CHR 0x0A]"]
  have "normalize (normalize (''  a  /* x */ b // c'' @ [CHR 0x0A])) =
          normalize (''  a  /* x */ b // c'' @ [CHR 0x0A])
        \<longleftrightarrow> \<not> has_block (normalize (''  a  /* x */ b // c'' @ [CHR 0x0A]))"
    by (elim conjE)
  from this d have e: "normalize (normalize (''  a  /* x */ b // c'' @ [CHR 0x0A])) =
       normalize (''  a  /* x */ b // c'' @ [CHR 0x0A])"
    by (rule iffD2)
  show ?thesis
    by (intro conjI a b c d e)
qed

end
